theory Spec2Isabelle
  imports Main "HOL-Library.Char_ord" "HOL-Library.List_Lexorder"
begin

section \<open>Static data\<close>

text \<open>
  The pipeline reads four JSON files once, at import time, into the globals
  \<^verbatim>\<open>SYMBOLS\<close>, \<^verbatim>\<open>REL\<close>, \<^verbatim>\<open>NEUT_MAP\<close> and \<^verbatim>\<open>PASSAGES\<close>. Here they are
  fields of one record that every operation takes as its first argument. A JSON object is
  an association list read with \<open>map_of\<close>; a key that the code reads with
  \<^verbatim>\<open>.get(key, default)\<close> is an optional field or a lookup with that default.
\<close>

record symbols =
  sym_functions :: "string list"
  sym_literals :: "string list"
  sym_enums :: "(string \<times> string list) list"

record rel_entry =
  requires :: "string list option"
  yields :: "string list option"

record neut_map =
  lex2neutral :: "(string \<times> string list) list"
  neutral2sdk :: "(string \<times> string list) list"

text \<open>
  A passage is indexed with \<^verbatim>\<open>p["id"]\<close> and \<^verbatim>\<open>p["text"]\<close>, so both keys are
  mandatory; \<^verbatim>\<open>role\<close> and \<^verbatim>\<open>tokens\<close> are read with \<^verbatim>\<open>.get\<close> and are the
  optional fields \<open>prole\<close> and \<open>ptokens\<close>.
\<close>

record passage =
  pid :: string
  ptext :: string
  prole :: "string option"
  ptokens :: "string list option"

record data =
  SYMBOLS :: symbols
  REL :: "(string \<times> rel_entry) list"
  NEUT_MAP :: neut_map
  PASSAGES :: "passage list"

section \<open>Requires closure\<close>

text \<open>\<^verbatim>\<open>REL.get(tok, {}).get("requires", []) or []\<close>\<close>

definition requires_of :: "(string \<times> rel_entry) list \<Rightarrow> string \<Rightarrow> string list" where
  "requires_of rel tok =
     (case map_of rel tok of
        None \<Rightarrow> []
      | Some e \<Rightarrow> (case requires e of None \<Rightarrow> [] | Some rs \<Rightarrow> rs))"

text \<open>
  The state of the closure computation is the pair of the locals \<^verbatim>\<open>out\<close> and
  \<^verbatim>\<open>seen\<close>. The loop \<^verbatim>\<open>for r in ...: add(r)\<close> threads it through the calls.
\<close>

type_synonym closure_state = "string list \<times> string set"

fun for_each :: "('a \<Rightarrow> 's \<Rightarrow> 's option) \<Rightarrow> 'a list \<Rightarrow> 's \<Rightarrow> 's option" where
  "for_each f [] st = Some st"
| "for_each f (x # xs) st = (case f x st of None \<Rightarrow> None | Some st' \<Rightarrow> for_each f xs st')"

text \<open>
  The inner function \<^verbatim>\<open>add\<close> of \<^verbatim>\<open>expand_with_requires\<close> recurses with no
  cycle guard. The first argument bounds the depth of the call stack; \<open>None\<close> is the
  recursion that never returns (in CPython, the \<^verbatim>\<open>RecursionError\<close>).
\<close>

primrec add :: "(string \<times> rel_entry) list \<Rightarrow> nat \<Rightarrow> string \<Rightarrow> closure_state \<Rightarrow> closure_state option" where
  "add rel 0 = (\<lambda>w st. None)"
| "add rel (Suc depth) = (\<lambda>w st.
     if w \<in> snd st then Some st
     else (case for_each (add rel depth) (requires_of rel w) st of
             None \<Rightarrow> None
           | Some st' \<Rightarrow> Some (fst st' @ [w], insert w (snd st'))))"

definition expand_with_requires :: "(string \<times> rel_entry) list \<Rightarrow> nat \<Rightarrow> string list \<Rightarrow> string list option" where
  "expand_with_requires rel depth toks = map_option fst (for_each (add rel depth) toks ([], {}))"

text \<open>
  \<^verbatim>\<open>topo_require_chain\<close> of the command-line interpreter is the same traversal; its inner
  function tests \<^verbatim>\<open>w not in seen\<close> once more before it appends. It reads the
  requires-list as \<^verbatim>\<open>REL.get(w, {}).get("requires", [])\<close>, which is \<open>requires_of\<close> on
  an entry whose field is absent or a list.
\<close>

primrec add_with_requires :: "(string \<times> rel_entry) list \<Rightarrow> nat \<Rightarrow> string \<Rightarrow> closure_state \<Rightarrow> closure_state option" where
  "add_with_requires rel 0 = (\<lambda>w st. None)"
| "add_with_requires rel (Suc depth) = (\<lambda>w st.
     if w \<in> snd st then Some st
     else (case for_each (add_with_requires rel depth) (requires_of rel w) st of
             None \<Rightarrow> None
           | Some st' \<Rightarrow>
               if w \<notin> snd st' then Some (fst st' @ [w], insert w (snd st')) else Some st'))"

definition topo_require_chain :: "(string \<times> rel_entry) list \<Rightarrow> nat \<Rightarrow> string list \<Rightarrow> string list option" where
  "topo_require_chain rel depth targets =
     map_option fst (for_each (add_with_requires rel depth) targets ([], {}))"

text \<open>The edges of the requires relation: \<open>(r, w)\<close> when \<open>w\<close> lists \<open>r\<close>.\<close>

definition requires_rel :: "(string \<times> rel_entry) list \<Rightarrow> (string \<times> string) set" where
  "requires_rel rel = {(r, w). r \<in> set (requires_of rel w)}"


section \<open>Iteration order of a Python set\<close>

text \<open>
  Python does not fix the order in which a \<^verbatim>\<open>set\<close> is iterated; for strings it changes
  from run to run with the hash seed. Every place where the code iterates a set
  (\<^verbatim>\<open>for x in s\<close>, \<^verbatim>\<open>list(s)\<close>, \<^verbatim>\<open>sorted(s)\<close>) takes the order from the parameter
  \<open>iter\<close>: \<open>iter k S\<close> is the order in which place number \<open>k\<close> sees the set \<open>S\<close>. A run of
  the program is one choice of \<open>iter\<close> that lists every finite set without repetition.
\<close>

type_synonym set_order = "nat \<Rightarrow> string set \<Rightarrow> string list"

definition iteration_order :: "set_order \<Rightarrow> bool" where
  "iteration_order iter \<longleftrightarrow> (\<forall>k S. finite S \<longrightarrow> set (iter k S) = S \<and> distinct (iter k S))"

text \<open>One such order, for the closed examples: ascending.\<close>

definition ascending :: set_order where
  "ascending k S = sorted_list_of_set S"

section \<open>Lexical interpreter\<close>

text \<open>
  A text is the list of the bytes of its UTF-8 encoding. Two texts are equal exactly when
  their encodings are, and the order of the encodings, byte by byte, is the order in which
  Python compares the texts, code point by code point. A code point outside ASCII is
  encoded by bytes from \<^verbatim>\<open>0x80\<close> up, and no such byte encodes anything else, so a
  pattern that names ASCII characters only reads the encoding as it reads the text.

  \<^verbatim>\<open>str.lower()\<close> follows the Unicode character database: it maps \<^verbatim>\<open>A-Z\<close> to
  \<^verbatim>\<open>a-z\<close> and also characters outside ASCII, some of them to ASCII letters. It is the
  parameter \<open>lower\<close> of the functions below, a function from texts to texts.
\<close>

text \<open>The class \<^verbatim>\<open>[a-z0-9_]\<close>.\<close>

definition is_token_char :: "char \<Rightarrow> bool" where
  "is_token_char c \<longleftrightarrow> c \<in> set ''abcdefghijklmnopqrstuvwxyz0123456789_''"

text \<open>
  \<^verbatim>\<open>re.split\<close> on a pattern \<^verbatim>\<open>[^...]+\<close>: the pieces between the maximal runs of
  separator characters, with an empty piece at either end when the text starts or ends
  with a separator. The second argument is the piece being read.
\<close>

fun re_split :: "(char \<Rightarrow> bool) \<Rightarrow> string \<Rightarrow> string \<Rightarrow> string list" where
  "re_split sep cur [] = [cur]"
| "re_split sep cur (c # cs) =
     (if sep c then
        (case cs of
           [] \<Rightarrow> [cur, []]
         | d # ds \<Rightarrow> if sep d then re_split sep cur cs else cur # re_split sep [] cs)
      else re_split sep (cur @ [c]) cs)"

text \<open>\<^verbatim>\<open>[t for t in re.split(r"[^a-z0-9_]+", text.lower()) if t]\<close>\<close>

definition tokenize :: "(string \<Rightarrow> string) \<Rightarrow> string \<Rightarrow> string list" where
  "tokenize lower text =
     filter (\<lambda>t. t \<noteq> []) (re_split (\<lambda>c. \<not> is_token_char c) [] (lower text))"

text \<open>\<^verbatim>\<open>NEUT_MAP.get("lex2neutral", {}).get(t, [])\<close> and its \<^verbatim>\<open>neutral2sdk\<close> twin.\<close>

definition lex_lookup :: "neut_map \<Rightarrow> string \<Rightarrow> string list" where
  "lex_lookup nm t = (case map_of (lex2neutral nm) t of None \<Rightarrow> [] | Some ns \<Rightarrow> ns)"

definition sdk_lookup :: "neut_map \<Rightarrow> string \<Rightarrow> string list" where
  "sdk_lookup nm n = (case map_of (neutral2sdk nm) n of None \<Rightarrow> [] | Some ws \<Rightarrow> ws)"

text \<open>The truth value of \<^verbatim>\<open>NEUT_MAP.get("lex2neutral", {}).get(t)\<close>: a non-empty list.\<close>

definition lex_mapped :: "neut_map \<Rightarrow> string \<Rightarrow> bool" where
  "lex_mapped nm t = (case map_of (lex2neutral nm) t of None \<Rightarrow> False | Some ns \<Rightarrow> ns \<noteq> [])"

text \<open>
  \<^verbatim>\<open>w in SYMBOLS.get("functions", []) or w in SYMBOLS.get("literals", []) or
  w in SYMBOLS.get("enums", {})\<close>
\<close>

definition in_vocabulary :: "symbols \<Rightarrow> string \<Rightarrow> bool" where
  "in_vocabulary syms w \<longleftrightarrow>
     w \<in> set (sym_functions syms) \<or> w \<in> set (sym_literals syms) \<or> w \<in> fst ` set (sym_enums syms)"

record interp_result =
  bag_of_api :: "string list"
  unrepresentable :: "string list"

text \<open>
  \<^verbatim>\<open>interpret_event\<close> of \<^verbatim>\<open>run_narrative.py\<close>. Places of set iteration: 0 is
  \<^verbatim>\<open>for n in neutral\<close>, 1 is \<^verbatim>\<open>sorted(sdk)\<close>, 2 is
  \<^verbatim>\<open>sorted(set(tokens) - mapped_terms)\<close>.
\<close>

definition interpret_event ::
  "(string \<Rightarrow> string) \<Rightarrow> set_order \<Rightarrow> data \<Rightarrow> string \<Rightarrow> interp_result" where
  "interpret_event lower iter d text =
     (let toks = tokenize lower text;
          neutral = fold (\<lambda>t acc. acc \<union> set (lex_lookup (NEUT_MAP d) t)) toks {};
          sdk = fold (\<lambda>n acc.
                  fold (\<lambda>w acc'. if in_vocabulary (SYMBOLS d) w then insert w acc' else acc')
                       (sdk_lookup (NEUT_MAP d) n) acc)
                  (iter 0 neutral) {};
          mapped_terms = set (filter (lex_mapped (NEUT_MAP d)) toks);
          unrep = sort (iter 2 (set toks - mapped_terms))
      in \<lparr>bag_of_api = sort (iter 1 sdk), unrepresentable = unrep\<rparr>)"

subsection \<open>The stand-alone interpreter\<close>

text \<open>
  \<^verbatim>\<open>interpret.py\<close> has its own copy of the interpreter, split into \<^verbatim>\<open>to_neutral\<close> and
  \<^verbatim>\<open>neutral_to_sdk\<close>, and adds an ordered chain and a tableau to the result. Its
  \<^verbatim>\<open>tokenize\<close> is the function above. Places of set iteration: 10 is
  \<^verbatim>\<open>for n in neutral\<close>, 11 and 12 are the two \<^verbatim>\<open>sorted(sdk_words)\<close>, 13 is
  \<^verbatim>\<open>for t in set(tokens)\<close>.
\<close>

definition to_neutral :: "neut_map \<Rightarrow> string list \<Rightarrow> string set" where
  "to_neutral nm toks = fold (\<lambda>t acc. fold insert (lex_lookup nm t) acc) toks {}"

definition neutral_to_sdk :: "set_order \<Rightarrow> symbols \<Rightarrow> neut_map \<Rightarrow> string set \<Rightarrow> string set" where
  "neutral_to_sdk iter syms nm neutral =
     fold (\<lambda>n acc. fold (\<lambda>w acc'. if in_vocabulary syms w then insert w acc' else acc')
                         (sdk_lookup nm n) acc)
          (iter 10 neutral) {}"

text \<open>
  The loop body of \<^verbatim>\<open>build_state_tableau\<close>. A row of the tableau is
  \<^verbatim>\<open>f"{w} -> {domain}"\<close> with the arrow U+2192, three bytes in UTF-8.
\<close>

definition arrow :: string where
  "arrow = [CHR 0xE2, CHR 0x86, CHR 0x92]"

definition tableau_rows ::
  "symbols \<Rightarrow> (string \<times> rel_entry) list \<Rightarrow> string list \<Rightarrow> string list \<times> string list" where
  "tableau_rows syms rel ws =
     fold (\<lambda>w (observable, callable).
             case (case map_of rel w of None \<Rightarrow> None | Some e \<Rightarrow> yields e) of
               Some (domain # _) \<Rightarrow> (observable @ [w @ '' '' @ arrow @ '' '' @ domain], callable)
             | _ \<Rightarrow>
                 if w \<in> set (sym_functions syms) \<or> w \<in> set (sym_literals syms)
                 then (observable, callable @ [w])
                 else (observable, callable))
          ws ([], [])"

text \<open>\<^verbatim>\<open>build_state_tableau\<close>: the rows for \<^verbatim>\<open>sorted(sdk_words)\<close>.\<close>

definition build_state_tableau ::
  "set_order \<Rightarrow> symbols \<Rightarrow> (string \<times> rel_entry) list \<Rightarrow> string set \<Rightarrow> string list \<times> string list" where
  "build_state_tableau iter syms rel sdk_words = tableau_rows syms rel (sort (iter 11 sdk_words))"

text \<open>
  The dictionary that the stand-alone interpreter returns; \<^verbatim>\<open>state_tableau.observable\<close>,
  \<^verbatim>\<open>state_tableau.callable\<close>, \<^verbatim>\<open>bag_of_api\<close> and \<^verbatim>\<open>unrepresentable\<close> are the fields
  \<open>observable_rows\<close>, \<open>callable_rows\<close>, \<open>bag\<close> and \<open>unrep_terms\<close>.
\<close>

record standalone_result =
  api_sentence :: "string list"
  observable_rows :: "string list"
  callable_rows :: "string list"
  bag :: "string list"
  unrep_terms :: "string list"

text \<open>
  The result is \<open>None\<close> when \<^verbatim>\<open>topo_require_chain\<close> does not return within the given
  depth of the call stack.
\<close>

definition interpret_event_standalone ::
  "(string \<Rightarrow> string) \<Rightarrow> set_order \<Rightarrow> data \<Rightarrow> nat \<Rightarrow> string \<Rightarrow> standalone_result option" where
  "interpret_event_standalone lower iter d depth text =
     (let toks = tokenize lower text;
          neutral = to_neutral (NEUT_MAP d) toks;
          sdk_words = neutral_to_sdk iter (SYMBOLS d) (NEUT_MAP d) neutral;
          desired = [''PadInit'', ''PadGetState'', ''PAD_STATE_*'', ''VSync(0)''];
          desired_present =
            filter (\<lambda>w. if w = ''PAD_STATE_*'' then ''PAD_STATE_*'' \<in> fst ` set (sym_enums (SYMBOLS d))
                         else w \<in> sdk_words \<or> w \<in> set (sym_literals (SYMBOLS d))) desired
      in case topo_require_chain (REL d) depth desired_present of
           None \<Rightarrow> None
         | Some chain \<Rightarrow>
             (let tableau = build_state_tableau iter (SYMBOLS d) (REL d) sdk_words;
                  mapped_any = set (filter (lex_mapped (NEUT_MAP d)) toks);
                  unrep = sort (filter (\<lambda>t. t \<notin> mapped_any) (iter 13 (set toks)))
              in Some \<lparr>api_sentence = chain, observable_rows = fst tableau,
                        callable_rows = snd tableau, bag = sort (iter 12 sdk_words),
                        unrep_terms = unrep\<rparr>))"

text \<open>A second order for the closed examples: descending.\<close>

definition descending :: set_order where
  "descending k S = rev (sorted_list_of_set S)"

section \<open>Passage selection\<close>

text \<open>
  \<^verbatim>\<open>requires_set\<close> takes the activated set and lists it (place 5) before it expands.
\<close>

definition requires_set :: "set_order \<Rightarrow> (string \<times> rel_entry) list \<Rightarrow> nat \<Rightarrow> string set \<Rightarrow> string set option" where
  "requires_set iter rel depth toks =
     map_option (\<lambda>ex. set ex - toks) (expand_with_requires rel depth (iter 5 toks))"

text \<open>A chosen passage is the dictionary \<^verbatim>\<open>{"id": p["id"], "text": p["text"]}\<close>.\<close>

record quote =
  qid :: string
  qtext :: string

definition quote_of :: "passage \<Rightarrow> quote" where
  "quote_of p = \<lparr>qid = pid p, qtext = ptext p\<rparr>"

text \<open>\<^verbatim>\<open>any(tok in T for tok in p.get("tokens", []))\<close>\<close>

definition substantiates :: "string set \<Rightarrow> passage \<Rightarrow> bool" where
  "substantiates T p \<longleftrightarrow> (\<exists>tok\<in>set (case ptokens p of None \<Rightarrow> [] | Some ts \<Rightarrow> ts). tok \<in> T)"

definition is_backbone :: "passage \<Rightarrow> bool" where
  "is_backbone p \<longleftrightarrow> prole p = Some ''backbone''"

text \<open>
  The first loop, over the non-backbone passages. Its state is \<^verbatim>\<open>(chosen, seen_ids)\<close>.
  \<open>Inl chosen\<close> is the \<^verbatim>\<open>return chosen\<close> inside the loop, \<open>Inr\<close> the state with which the
  loop runs out.
\<close>

fun non_backbone_pass ::
  "string set \<Rightarrow> int \<Rightarrow> passage list \<Rightarrow> quote list \<times> string set \<Rightarrow> quote list + quote list \<times> string set" where
  "non_backbone_pass T max_quotes [] st = Inr st"
| "non_backbone_pass T max_quotes (p # ps) st =
     (if pid p \<in> snd st \<or> is_backbone p then non_backbone_pass T max_quotes ps st
      else if substantiates T p then
        (let chosen = fst st @ [quote_of p]; seen_ids = insert (pid p) (snd st)
         in if int (length chosen) \<ge> max_quotes then Inl chosen
            else non_backbone_pass T max_quotes ps (chosen, seen_ids))
      else non_backbone_pass T max_quotes ps st)"

text \<open>The second loop, over the backbone passages; \<^verbatim>\<open>break\<close> ends it.\<close>

fun backbone_pass ::
  "string set \<Rightarrow> int \<Rightarrow> passage list \<Rightarrow> quote list \<times> string set \<Rightarrow> quote list \<times> string set" where
  "backbone_pass prereq_only max_quotes [] st = st"
| "backbone_pass prereq_only max_quotes (p # ps) st =
     (if pid p \<in> snd st \<or> \<not> is_backbone p then backbone_pass prereq_only max_quotes ps st
      else if substantiates prereq_only p then
        (let chosen = fst st @ [quote_of p]; seen_ids = insert (pid p) (snd st)
         in if int (length chosen) \<ge> max_quotes then (chosen, seen_ids)
            else backbone_pass prereq_only max_quotes ps (chosen, seen_ids))
      else backbone_pass prereq_only max_quotes ps st)"

text \<open>The two loops, given the sets \<^verbatim>\<open>T\<close> and \<^verbatim>\<open>prereq_only\<close>.\<close>

definition select_from :: "string set \<Rightarrow> string set \<Rightarrow> passage list \<Rightarrow> int \<Rightarrow> quote list" where
  "select_from T prereq_only all_passages max_quotes =
     (case non_backbone_pass T max_quotes all_passages ([], {}) of
        Inl chosen \<Rightarrow> chosen
      | Inr st \<Rightarrow> fst (backbone_pass prereq_only max_quotes all_passages st))"

text \<open>
  \<^verbatim>\<open>select_passages_event_minimal\<close>; the copy in \<^verbatim>\<open>run_narrative.py\<close> reads the global
  \<^verbatim>\<open>PASSAGES\<close>, the copy in \<^verbatim>\<open>interpret_llm.py\<close> takes the corpus as an argument, and the
  bodies are the same. Place 4 is \<^verbatim>\<open>list(activated_tokens)\<close>. The result is \<open>None\<close> when
  the closure does not return.
\<close>

definition select_passages_event_minimal ::
  "set_order \<Rightarrow> (string \<times> rel_entry) list \<Rightarrow> nat \<Rightarrow> string set \<Rightarrow> passage list \<Rightarrow> int \<Rightarrow> quote list option" where
  "select_passages_event_minimal iter rel depth activated_tokens all_passages max_quotes =
     (case expand_with_requires rel depth (iter 4 activated_tokens) of
        None \<Rightarrow> None
      | Some ex \<Rightarrow>
          (case requires_set iter rel depth activated_tokens of
             None \<Rightarrow> None
           | Some prereq_only \<Rightarrow> Some (select_from (set ex) prereq_only all_passages max_quotes)))"

text \<open>
  The closure as a set: every symbol from which a requires-path leads to a member of \<open>A\<close>,
  the members themselves included.
\<close>

definition closure :: "(string \<times> rel_entry) list \<Rightarrow> string set \<Rightarrow> string set" where
  "closure rel A = {x. \<exists>t\<in>A. (x, t) \<in> (requires_rel rel)\<^sup>*}"

definition reach :: "(string \<times> rel_entry) list \<Rightarrow> string \<Rightarrow> string set" where
  "reach rel w = {x. (x, w) \<in> (requires_rel rel)\<^sup>*}"

text \<open>
  The invariant of the closure loop: \<^verbatim>\<open>seen\<close> is the set of \<^verbatim>\<open>out\<close>, no symbol is
  listed twice, and the requires of every listed symbol stand before it.
\<close>

definition closure_inv :: "(string \<times> rel_entry) list \<Rightarrow> closure_state \<Rightarrow> bool" where
  "closure_inv rel st \<longleftrightarrow>
     snd st = set (fst st) \<and> distinct (fst st) \<and>
     (\<forall>i<length (fst st). set (requires_of rel (fst st ! i)) \<subseteq> set (take i (fst st)))"

section \<open>Generation service boundary\<close>

text \<open>
  The dictionary that the model's answer parses to. \<^verbatim>\<open>__parse_error\<close> and \<^verbatim>\<open>__raw\<close>
  are the fields \<open>parse_error\<close> and \<open>raw_text\<close>.
\<close>

record llm_out =
  narrative :: "string option"
  citationsUsed :: "string list option"
  tokensUsed :: "string list option"
  parse_error :: "string option"
  raw_text :: "string option"

text \<open>
  \<^verbatim>\<open>re.search(r"\{.*\}", raw, re.S)\<close>: the dot matches every character and the star is
  greedy, so the match runs from the first opening brace to the last closing brace of
  the text, if one follows.
\<close>

definition json_object_span :: "string \<Rightarrow> string option" where
  "json_object_span raw =
     (let t = dropWhile (\<lambda>c. c \<noteq> CHR ''{'') raw;
          u = rev (dropWhile (\<lambda>c. c \<noteq> CHR ''}'') (rev t))
      in if u = [] then None else Some u)"

definition empty_out :: "string \<Rightarrow> string \<Rightarrow> llm_out" where
  "empty_out err raw =
     \<lparr>narrative = Some [], citationsUsed = Some [], tokensUsed = Some [],
      parse_error = Some err, raw_text = Some raw\<rparr>"

text \<open>
  \<^verbatim>\<open>json.loads\<close> is the standard library's; it is the parameter \<open>loads\<close> of the functions
  below. Its result is the dictionary of the answer or the exception that it raises, with
  the text \<^verbatim>\<open>str(e)\<close>: a \<^verbatim>\<open>json.JSONDecodeError\<close>, or an exception of another class
  (a \<^verbatim>\<open>RecursionError\<close> on deeply nested brackets, a \<^verbatim>\<open>ValueError\<close> on a number of too
  many digits). The dictionaries are those of the schema of the answer: \<^verbatim>\<open>narrative\<close>,
  when present, is a text, and \<^verbatim>\<open>citationsUsed\<close> and \<^verbatim>\<open>tokensUsed\<close>, when present, are lists
  of texts.
\<close>

datatype exn = JSONDecodeError string | OtherException string

definition str_of :: "exn \<Rightarrow> string" where
  "str_of e = (case e of JSONDecodeError msg \<Rightarrow> msg | OtherException msg \<Rightarrow> msg)"

text \<open>
  The block \<^verbatim>\<open>Parse JSON from model\<close> of \<^verbatim>\<open>ask_lmstudio\<close> in \<^verbatim>\<open>run_narrative.py\<close>. The
  first \<^verbatim>\<open>json.loads\<close> stands under \<^verbatim>\<open>except json.JSONDecodeError\<close>, so an exception of
  another class leaves the block (\<open>Inl\<close>); the second stands under
  \<^verbatim>\<open>except Exception as e\<close>, which takes every exception of \<^verbatim>\<open>json.loads\<close>.
\<close>

definition parse_model_json :: "(string \<Rightarrow> exn + llm_out) \<Rightarrow> string \<Rightarrow> exn + llm_out" where
  "parse_model_json loads raw =
     (case loads raw of
        Inr out \<Rightarrow> Inr out
      | Inl (OtherException msg) \<Rightarrow> Inl (OtherException msg)
      | Inl (JSONDecodeError _) \<Rightarrow>
          (case json_object_span raw of
             None \<Rightarrow> Inr (empty_out ''no-json-object-found'' raw)
           | Some m \<Rightarrow>
               (case loads m of Inr out \<Rightarrow> Inr out | Inl e \<Rightarrow> Inr (empty_out (str_of e) raw))))"

text \<open>
  The same block in \<^verbatim>\<open>interpret_llm.py\<close>: the second \<^verbatim>\<open>json.loads\<close> is not guarded, so
  its exception leaves the function too, and the empty result carries no marker.
\<close>

definition parse_model_json_llm :: "(string \<Rightarrow> exn + llm_out) \<Rightarrow> string \<Rightarrow> exn + llm_out" where
  "parse_model_json_llm loads content =
     (case loads content of
        Inr out \<Rightarrow> Inr out
      | Inl (OtherException msg) \<Rightarrow> Inl (OtherException msg)
      | Inl (JSONDecodeError _) \<Rightarrow>
          (case json_object_span content of
             None \<Rightarrow> Inr \<lparr>narrative = Some [], citationsUsed = Some [], tokensUsed = Some [],
                         parse_error = None, raw_text = None\<rparr>
           | Some m \<Rightarrow> loads m))"

text \<open>The class \<^verbatim>\<open>[a-zA-Z0-9_.-]\<close> of the characters of a cited id.\<close>

definition is_cid_char :: "char \<Rightarrow> bool" where
  "is_cid_char c \<longleftrightarrow>
     c \<in> set ''abcdefghijklmnopqrstuvwxyzABCDEFGHIJKLMNOPQRSTUVWXYZ0123456789_.-''"

text \<open>
  \<^verbatim>\<open>re.sub(r"\[([a-zA-Z0-9_.-]+)\]", citation_replacer, text)\<close>: the text is scanned
  from the left; at an opening bracket the longest run of id characters is read, and it is a
  marker when it is not empty and a closing bracket follows. A marker whose id is not
  provided is replaced by the empty string, any other text is copied, and the scan goes
  on behind the marker.
\<close>

function sub_citations :: "string set \<Rightarrow> string \<Rightarrow> string" where
  "sub_citations provided [] = []"
| "sub_citations provided (c # cs) =
     (let cid = takeWhile is_cid_char cs; rest = dropWhile is_cid_char cs
      in if c = CHR ''['' \<and> cid \<noteq> [] \<and> rest \<noteq> [] \<and> hd rest = CHR '']''
         then (if cid \<in> provided then CHR ''['' # cid @ '']'' else []) @ sub_citations provided (tl rest)
         else c # sub_citations provided cs)"
  by pat_completeness auto
termination
  by (relation "measure (\<lambda>(provided, s). length s)")
     (auto simp: less_Suc_eq_le intro: order_trans[OF diff_le_self length_dropWhile_le])

text \<open>The guardrail of \<^verbatim>\<open>ask_lmstudio\<close> that follows the parse.\<close>

definition guardrail :: "quote list \<Rightarrow> llm_out \<Rightarrow> llm_out" where
  "guardrail quotes out =
     (let provided_ids = qid ` set quotes;
          out1 = (case citationsUsed out of
                    None \<Rightarrow> out
                  | Some cs \<Rightarrow> out\<lparr>citationsUsed := Some (filter (\<lambda>cid. cid \<in> provided_ids) cs)\<rparr>)
      in case narrative out1 of
           None \<Rightarrow> out1
         | Some text \<Rightarrow>
             if provided_ids \<noteq> {} then out1\<lparr>narrative := Some (sub_citations provided_ids text)\<rparr>
             else out1)"

text \<open>
  The ways in which a request ends without a result: the exception that
  \<^verbatim>\<open>call_lmstudio\<close> raises again, the \<^verbatim>\<open>RecursionError\<close> of a closure that does not
  return, and an exception of \<^verbatim>\<open>json.loads\<close> that is not caught.
\<close>

datatype error = RequestFailed | RecursionError | Raised exn

text \<open>
  \<^verbatim>\<open>ask_lmstudio\<close>: the request to the service is the parameter \<open>llm\<close>, from the allowed
  tokens, the passages and the event text to the content of the answer; \<open>None\<close> is the
  exception that \<^verbatim>\<open>call_lmstudio\<close> re-raises.
\<close>

definition ask_lmstudio ::
  "(string list \<Rightarrow> quote list \<Rightarrow> string \<Rightarrow> string option) \<Rightarrow> (string \<Rightarrow> exn + llm_out) \<Rightarrow>
   string list \<Rightarrow> quote list \<Rightarrow> string \<Rightarrow> error + llm_out" where
  "ask_lmstudio llm loads allowed quotes event_brief =
     (case llm allowed quotes event_brief of
        None \<Rightarrow> Inl RequestFailed
      | Some raw \<Rightarrow>
          (case parse_model_json loads raw of
             Inl e \<Rightarrow> Inl (Raised e)
           | Inr out \<Rightarrow> Inr (guardrail quotes out)))"

text \<open>\<^verbatim>\<open>ask_lmstudio\<close> of \<^verbatim>\<open>interpret_llm.py\<close> has no guardrail.\<close>

definition ask_lmstudio_llm ::
  "(string list \<Rightarrow> quote list \<Rightarrow> string \<Rightarrow> string option) \<Rightarrow> (string \<Rightarrow> exn + llm_out) \<Rightarrow>
   string list \<Rightarrow> quote list \<Rightarrow> string \<Rightarrow> error + llm_out" where
  "ask_lmstudio_llm llm loads allowed quotes event_brief =
     (case llm allowed quotes event_brief of
        None \<Rightarrow> Inl RequestFailed
      | Some content \<Rightarrow>
          (case parse_model_json_llm loads content of
             Inl e \<Rightarrow> Inl (Raised e)
           | Inr out \<Rightarrow> Inr out))"

text \<open>
  The invariant of the two selection loops: \<^verbatim>\<open>seen_ids\<close> holds the ids of \<^verbatim>\<open>chosen\<close>, the
  ids are distinct, and every chosen entry was made from a passage of the corpus that the
  policy admits.
\<close>

definition admitted :: "string set \<Rightarrow> string set \<Rightarrow> passage \<Rightarrow> bool" where
  "admitted T prereq_only p \<longleftrightarrow>
     (if is_backbone p then substantiates prereq_only p else substantiates T p)"

definition selection_inv ::
  "string set \<Rightarrow> string set \<Rightarrow> passage list \<Rightarrow> quote list \<times> string set \<Rightarrow> bool" where
  "selection_inv T prereq_only corpus st \<longleftrightarrow>
     snd st = qid ` set (fst st) \<and> distinct (map qid (fst st)) \<and>
     (\<forall>q\<in>set (fst st). \<exists>p\<in>set corpus. q = quote_of p \<and> admitted T prereq_only p)"

section \<open>Lint\<close>

text \<open>
  The patterns of the lint use \<^verbatim>\<open>\b\<close> and the flag \<^verbatim>\<open>re.I\<close>, which read the text
  character by character and follow the Unicode character database. A character is the
  list of the bytes that encode it: the first byte of an encoded character tells of how
  many bytes it is.
\<close>

definition utf8_length :: "char \<Rightarrow> nat" where
  "utf8_length c =
     (if of_char c < (0xC0 :: nat) then 1 else if of_char c < (0xE0 :: nat) then 2
      else if of_char c < (0xF0 :: nat) then 3 else 4)"

fun utf8_chars :: "string \<Rightarrow> string list" where
  "utf8_chars [] = []"
| "utf8_chars (c # cs) =
     (c # take (utf8_length c - 1) cs) # utf8_chars (drop (utf8_length c - 1) cs)"

text \<open>
  The classes that the patterns write out, \<^verbatim>\<open>[A-Z]\<close> and \<^verbatim>\<open>[A-Za-z0-9_]\<close>: a character
  of one byte, which is in the class.
\<close>

definition is_word_char :: "char \<Rightarrow> bool" where
  "is_word_char c \<longleftrightarrow>
     c \<in> set ''abcdefghijklmnopqrstuvwxyzABCDEFGHIJKLMNOPQRSTUVWXYZ0123456789_''"

definition is_upper :: "char \<Rightarrow> bool" where
  "is_upper c \<longleftrightarrow> c \<in> set ''ABCDEFGHIJKLMNOPQRSTUVWXYZ''"

definition in_capital_class :: "string \<Rightarrow> bool" where
  "in_capital_class ch \<longleftrightarrow> (case ch of [c] \<Rightarrow> is_upper c | _ \<Rightarrow> False)"

definition in_word_class :: "string \<Rightarrow> bool" where
  "in_word_class ch \<longleftrightarrow> (case ch of [c] \<Rightarrow> is_word_char c | _ \<Rightarrow> False)"

text \<open>
  \<^verbatim>\<open>\b\<close> between two neighbours, \<open>None\<close> being an end of the text: exactly one of them
  is a word character. The word characters are those of the class \<^verbatim>\<open>\w\<close> of a pattern on
  \<^verbatim>\<open>str\<close>, the alphanumeric characters of Unicode and the underscore; the class is the
  parameter \<open>is_word\<close>.
\<close>

definition word_boundary :: "(string \<Rightarrow> bool) \<Rightarrow> string option \<Rightarrow> string option \<Rightarrow> bool" where
  "word_boundary is_word l r \<longleftrightarrow>
     (case l of None \<Rightarrow> False | Some c \<Rightarrow> is_word c) \<noteq>
     (case r of None \<Rightarrow> False | Some c \<Rightarrow> is_word c)"

definition head_option :: "'a list \<Rightarrow> 'a option" where
  "head_option s = (case s of [] \<Rightarrow> None | c # _ \<Rightarrow> Some c)"

text \<open>
  \<^verbatim>\<open>re.findall(r"\b[A-Z][A-Za-z0-9_]*\b", text)\<close>, on the characters of the text, \<open>prev\<close>
  being the character before them. At a capital letter that follows a boundary the longest
  run of characters of the class is read; a shorter run ends between two word characters,
  where no boundary is, so there is a match exactly when a boundary follows the longest
  run. The search goes on behind a match, and at the next character where there is none.
\<close>

function findall_from :: "(string \<Rightarrow> bool) \<Rightarrow> string option \<Rightarrow> string list \<Rightarrow> string list" where
  "findall_from is_word prev [] = []"
| "findall_from is_word prev (c # cs) =
     (let run = takeWhile in_word_class cs; rest = dropWhile in_word_class cs;
          final = last (c # run)
      in if in_capital_class c \<and> word_boundary is_word prev (Some c) \<and>
            word_boundary is_word (Some final) (head_option rest)
         then concat (c # run) # findall_from is_word (Some final) rest
         else findall_from is_word (Some c) cs)"
  by pat_completeness auto
termination
  by (relation "measure (\<lambda>(is_word, prev, s). length s)")
     (auto simp: less_Suc_eq_le length_dropWhile_le)

definition findall_capitalized :: "(string \<Rightarrow> bool) \<Rightarrow> string \<Rightarrow> string list" where
  "findall_capitalized is_word text = findall_from is_word None (utf8_chars text)"

text \<open>
  The pattern \<^verbatim>\<open>\b<term>\b\<close> with \<^verbatim>\<open>re.I\<close>, tried at one position: \<open>prev\<close> is the
  character before the position and \<open>s\<close> the characters from it. \<^verbatim>\<open>re.escape\<close> makes
  every character of the term stand for itself, and under \<^verbatim>\<open>re.I\<close> a character of the
  pattern matches the characters of the text that the parameter \<open>ci_eq\<close> relates it to: the
  character itself and the others that the database gives the same case-insensitive
  form.
\<close>

definition match_term_here ::
  "(string \<Rightarrow> bool) \<Rightarrow> (string \<Rightarrow> string \<Rightarrow> bool) \<Rightarrow> string list \<Rightarrow> string option \<Rightarrow> string list \<Rightarrow> bool" where
  "match_term_here is_word ci_eq term prev s \<longleftrightarrow>
     length term \<le> length s \<and>
     list_all2 ci_eq term (take (length term) s) \<and>
     word_boundary is_word prev (head_option s) \<and>
     word_boundary is_word (if term = [] then prev else Some (s ! (length term - 1)))
                   (head_option (drop (length term) s))"

text \<open>\<^verbatim>\<open>re.search\<close>: the pattern tried at every position, the end of the text included.\<close>

fun search_term_from ::
  "(string \<Rightarrow> bool) \<Rightarrow> (string \<Rightarrow> string \<Rightarrow> bool) \<Rightarrow> string list \<Rightarrow> string option \<Rightarrow> string list \<Rightarrow> bool" where
  "search_term_from is_word ci_eq term prev [] = match_term_here is_word ci_eq term prev []"
| "search_term_from is_word ci_eq term prev (c # cs) =
     (match_term_here is_word ci_eq term prev (c # cs) \<or>
      search_term_from is_word ci_eq term (Some c) cs)"

definition search_term ::
  "(string \<Rightarrow> bool) \<Rightarrow> (string \<Rightarrow> string \<Rightarrow> bool) \<Rightarrow> string \<Rightarrow> string \<Rightarrow> bool" where
  "search_term is_word ci_eq term text =
     search_term_from is_word ci_eq (utf8_chars term) None (utf8_chars text)"

text \<open>
  One round of a checking loop: \<^verbatim>\<open>ok = False; issues.append(msg)\<close> when the item is a
  violation. The state is \<^verbatim>\<open>(ok, issues)\<close>.
\<close>

definition flag :: "('a \<Rightarrow> bool) \<Rightarrow> ('a \<Rightarrow> string) \<Rightarrow> 'a \<Rightarrow> bool \<times> string list \<Rightarrow> bool \<times> string list" where
  "flag violates msg x st = (if violates x then (False, snd st @ [msg x]) else st)"

text \<open>
  The messages \<^verbatim>\<open>f"unallowed token: {t}"\<close>, \<^verbatim>\<open>"no citations used"\<close>,
  \<^verbatim>\<open>f"bad citation id: {cid}"\<close> and \<^verbatim>\<open>f"unrepresentable term present: {term}"\<close>.
\<close>

definition unallowed_msg :: "string \<Rightarrow> string" where
  "unallowed_msg t = ''unallowed token: '' @ t"

definition no_citations_msg :: string where
  "no_citations_msg = ''no citations used''"

definition bad_citation_msg :: "string \<Rightarrow> string" where
  "bad_citation_msg cid = ''bad citation id: '' @ cid"

definition banned_msg :: "string \<Rightarrow> string" where
  "banned_msg term = ''unrepresentable term present: '' @ term"

definition narrative_text :: "llm_out \<Rightarrow> string" where
  "narrative_text out = (case narrative out of None \<Rightarrow> [] | Some s \<Rightarrow> s)"

definition citation_set :: "llm_out \<Rightarrow> string set" where
  "citation_set out = set (case citationsUsed out of None \<Rightarrow> [] | Some cs \<Rightarrow> cs)"

text \<open>
  \<^verbatim>\<open>lint_output\<close>, the same in \<^verbatim>\<open>run_narrative.py\<close> and \<^verbatim>\<open>interpret_llm.py\<close>. Place 6 is
  \<^verbatim>\<open>for t in used_caps\<close>, place 7 is \<^verbatim>\<open>for cid in cids\<close>. The output is a dictionary of
  the schema, as \<^verbatim>\<open>json.loads\<close> gives it.
\<close>

definition lint_output ::
  "(string \<Rightarrow> bool) \<Rightarrow> (string \<Rightarrow> string \<Rightarrow> bool) \<Rightarrow> set_order \<Rightarrow>
   llm_out \<Rightarrow> string set \<Rightarrow> string list \<Rightarrow> string list option \<Rightarrow> bool \<times> string list" where
  "lint_output is_word ci_eq iter out allowed provided banned_terms =
     (let used_caps = set (findall_capitalized is_word (narrative_text out));
          st1 = fold (flag (\<lambda>t. t \<notin> allowed \<and> t \<notin> {''I'', ''PS1''}) unallowed_msg)
                     (iter 6 used_caps) (True, []);
          cids = citation_set out;
          valid_ids = set provided;
          st2 = (if cids = {} then (False, snd st1 @ [no_citations_msg]) else st1);
          st3 = fold (flag (\<lambda>cid. cid \<notin> valid_ids) bad_citation_msg)
                     (iter 7 cids) st2
      in fold (flag (\<lambda>term. search_term is_word ci_eq term (narrative_text out)) banned_msg)
              (case banned_terms of None \<Rightarrow> [] | Some ts \<Rightarrow> ts) st3)"

section \<open>Orchestrator\<close>

text \<open>
  The result of a request: the model's dictionary with the keys that the orchestrator
  adds. \<^verbatim>\<open>__ok\<close>, \<^verbatim>\<open>__issues\<close>, \<^verbatim>\<open>__activated_tokens\<close>, \<^verbatim>\<open>__allowed_tokens\<close>,
  \<^verbatim>\<open>__provided_ids\<close> and \<^verbatim>\<open>__fallback\<close> are the fields below; a key that is not set is
  \<open>None\<close>.
\<close>

record narrative_output = llm_out +
  res_ok :: bool
  res_issues :: "string list option"
  res_activated_tokens :: "string list"
  res_allowed_tokens :: "string list"
  res_provided_ids :: "string list"
  res_fallback :: "bool option"

definition fallback :: narrative_output where
  "fallback =
     \<lparr>narrative = Some (''No part of the PlayStation SDK vocabulary can be used to describe this event. '' @
                        ''The input does not map to any known SDK concepts or tokens.''),
      citationsUsed = Some [], tokensUsed = Some [], parse_error = None, raw_text = None,
      res_ok = True, res_issues = None, res_activated_tokens = [], res_allowed_tokens = [],
      res_provided_ids = [], res_fallback = Some True\<rparr>"

text \<open>
  The guard of the fallback:
  \<^verbatim>\<open>not activated or (len(banned) == len(_tokenize(event_text)))\<close>.
\<close>

definition fallback_guard ::
  "(string \<Rightarrow> string) \<Rightarrow> string set \<Rightarrow> string list \<Rightarrow> string \<Rightarrow> bool" where
  "fallback_guard lower activated banned event_text \<longleftrightarrow>
     activated = {} \<or> length banned = length (tokenize lower event_text)"

text \<open>
  \<^verbatim>\<open>generate_narrative\<close>, with the three parameters of the character database. Place 3 is \<^verbatim>\<open>list(activated)\<close> for the expansion, place 8 the
  \<^verbatim>\<open>sorted(list(activated))\<close> of the result. A closure that does not return within
  \<open>depth\<close> ends the request with \<open>RecursionError\<close>.
\<close>

definition generate_narrative ::
  "(string \<Rightarrow> string) \<Rightarrow> (string \<Rightarrow> bool) \<Rightarrow> (string \<Rightarrow> string \<Rightarrow> bool) \<Rightarrow> set_order \<Rightarrow> data \<Rightarrow>
   (string list \<Rightarrow> quote list \<Rightarrow> string \<Rightarrow> string option) \<Rightarrow>
   (string \<Rightarrow> exn + llm_out) \<Rightarrow> nat \<Rightarrow> string \<Rightarrow> error + narrative_output" where
  "generate_narrative lower is_word ci_eq iter d llm loads depth event_text =
     (let interp = interpret_event lower iter d event_text;
          activated = set (bag_of_api interp);
          banned = unrepresentable interp
      in if fallback_guard lower activated banned event_text then Inr fallback
         else
           (case expand_with_requires (REL d) depth (iter 3 activated) of
              None \<Rightarrow> Inl RecursionError
            | Some allowed \<Rightarrow>
                (case select_passages_event_minimal iter (REL d) depth activated (PASSAGES d) 4 of
                   None \<Rightarrow> Inl RecursionError
                 | Some quotes \<Rightarrow>
                     (case ask_lmstudio llm loads allowed quotes event_text of
                        Inl e \<Rightarrow> Inl e
                      | Inr out \<Rightarrow>
                          (let verdict = lint_output is_word ci_eq iter out (set allowed) (map qid quotes)
                                         (Some banned)
                           in Inr (llm_out.extend out
                                \<lparr>res_ok = fst verdict,
                                 res_issues = (if fst verdict then None else Some (snd verdict)),
                                 res_activated_tokens = sort (iter 8 activated),
                                 res_allowed_tokens = allowed,
                                 res_provided_ids = map qid quotes,
                                 res_fallback = None\<rparr>))))))"

section \<open>The interpreter's results as sets\<close>

text \<open>
  The symbols that a text activates: those that a neutral tag of one of its tokens maps to
  and that the vocabulary holds. The tokens without a neutral tag.
\<close>

definition activated_set :: "(string \<Rightarrow> string) \<Rightarrow> data \<Rightarrow> string \<Rightarrow> string set" where
  "activated_set lower d text =
     {w. \<exists>t\<in>set (tokenize lower text). \<exists>n\<in>set (lex_lookup (NEUT_MAP d) t).
           w \<in> set (sdk_lookup (NEUT_MAP d) n) \<and> in_vocabulary (SYMBOLS d) w}"

definition unmapped_set :: "(string \<Rightarrow> string) \<Rightarrow> data \<Rightarrow> string \<Rightarrow> string set" where
  "unmapped_set lower d text = {t \<in> set (tokenize lower text). lex_lookup (NEUT_MAP d) t = []}"

text \<open>
  The list \<^verbatim>\<open>desired_present\<close> of the stand-alone interpreter, from the activated set.
\<close>

definition desired_present :: "(string \<Rightarrow> string) \<Rightarrow> data \<Rightarrow> string \<Rightarrow> string list" where
  "desired_present lower d text =
     filter (\<lambda>w. if w = ''PAD_STATE_*'' then ''PAD_STATE_*'' \<in> fst ` set (sym_enums (SYMBOLS d))
                  else w \<in> activated_set lower d text \<or> w \<in> set (sym_literals (SYMBOLS d)))
       [''PadInit'', ''PadGetState'', ''PAD_STATE_*'', ''VSync(0)'']"

section \<open>The violations that the lint looks for\<close>

definition unallowed_tokens :: "(string \<Rightarrow> bool) \<Rightarrow> llm_out \<Rightarrow> string set \<Rightarrow> string set" where
  "unallowed_tokens is_word out allowed =
     {t \<in> set (findall_capitalized is_word (narrative_text out)).
        t \<notin> allowed \<and> t \<notin> {''I'', ''PS1''}}"

definition bad_citation_ids :: "llm_out \<Rightarrow> string list \<Rightarrow> string set" where
  "bad_citation_ids out provided = {cid \<in> citation_set out. cid \<notin> set provided}"

definition banned_present ::
  "(string \<Rightarrow> bool) \<Rightarrow> (string \<Rightarrow> string \<Rightarrow> bool) \<Rightarrow> llm_out \<Rightarrow> string list option \<Rightarrow> string set" where
  "banned_present is_word ci_eq out banned_terms =
     {term \<in> set (case banned_terms of None \<Rightarrow> [] | Some ts \<Rightarrow> ts).
        search_term is_word ci_eq term (narrative_text out)}"

section \<open>Data of the examples\<close>

text \<open>
  The texts of the examples are texts of ASCII characters. On such a text
  \<^verbatim>\<open>str.lower()\<close> maps \<^verbatim>\<open>A-Z\<close> to \<^verbatim>\<open>a-z\<close> and nothing else, the class \<^verbatim>\<open>\w\<close> is
  \<^verbatim>\<open>[A-Za-z0-9_]\<close>, and under \<^verbatim>\<open>re.I\<close> two characters match when they are the same
  letter in either case. The three functions below are these on ASCII text. On a
  character outside ASCII they are not the functions of the database, and the examples
  hold no such character.
\<close>

definition lower_ascii :: "string \<Rightarrow> string" where
  "lower_ascii s =
     map (\<lambda>c. case map_of (zip ''ABCDEFGHIJKLMNOPQRSTUVWXYZ'' ''abcdefghijklmnopqrstuvwxyz'') c of
                 None \<Rightarrow> c | Some l \<Rightarrow> l) s"

definition word_ascii :: "string \<Rightarrow> bool" where
  "word_ascii ch \<longleftrightarrow> in_word_class ch"

definition ci_eq_ascii :: "string \<Rightarrow> string \<Rightarrow> bool" where
  "ci_eq_ascii p c \<longleftrightarrow> lower_ascii p = lower_ascii c"

text \<open>A relation graph of two symbols: \<^verbatim>\<open>PadGetState\<close> requires \<^verbatim>\<open>PadInit\<close>.\<close>

definition rel_pad :: "(string \<times> rel_entry) list" where
  "rel_pad = [(''PadGetState'', \<lparr>requires = Some [''PadInit''], yields = Some [''PAD_STATE_*'']\<rparr>),
              (''PadInit'', \<lparr>requires = None, yields = None\<rparr>)]"

text \<open>
  A corpus of three passages: one about \<^verbatim>\<open>PadGetState\<close>, a backbone passage about its
  prerequisite \<^verbatim>\<open>PadInit\<close>, and a backbone passage about a symbol that is not required.
\<close>

definition p_state :: passage where
  "p_state = \<lparr>pid = ''pad.state.p12'', ptext = ''PadGetState reads the controller state.'',
              prole = None, ptokens = Some [''PadGetState'']\<rparr>"

definition p_init :: passage where
  "p_init = \<lparr>pid = ''pad.init.p3'', ptext = ''PadInit starts the controller driver.'',
             prole = Some ''backbone'', ptokens = Some [''PadInit'']\<rparr>"

definition p_reset :: passage where
  "p_reset = \<lparr>pid = ''gpu.reset.p47'', ptext = ''ResetGraph resets the graphics system.'',
              prole = Some ''backbone'', ptokens = Some [''ResetGraph'']\<rparr>"

definition corpus_pad :: "passage list" where
  "corpus_pad = [p_state, p_init, p_reset]"

text \<open>The static data of the examples, and a service that cannot be reached.\<close>

definition d_pad :: data where
  "d_pad =
     \<lparr>SYMBOLS = \<lparr>sym_functions = [''PadInit'', ''PadGetState''], sym_literals = [],
                  sym_enums = [(''PAD_STATE_*'', [''PAD_STATE_STABLE''])]\<rparr>,
      REL = rel_pad,
      NEUT_MAP = \<lparr>lex2neutral = [(''controller'', [''input_device'']), (''pressed'', [''input_state''])],
                   neutral2sdk = [(''input_device'', [''PadInit'']), (''input_state'', [''PadGetState''])]\<rparr>,
      PASSAGES = corpus_pad\<rparr>"

definition llm_down :: "string list \<Rightarrow> quote list \<Rightarrow> string \<Rightarrow> string option" where
  "llm_down allowed quotes event_brief = None"

definition loads_reject :: "string \<Rightarrow> exn + llm_out" where
  "loads_reject s = Inl (JSONDecodeError ''Expecting value: line 1 column 1 (char 0)'')"

text \<open>The same data with a vocabulary that holds no symbol.\<close>

definition d_no_vocabulary :: data where
  "d_no_vocabulary = d_pad\<lparr>SYMBOLS := \<lparr>sym_functions = [], sym_literals = [], sym_enums = []\<rparr>\<rparr>"

text \<open>
  An answer of the service with three violations: the capitalized word \<^verbatim>\<open>Foo\<close>, the
  citation \<^verbatim>\<open>xyz\<close> and the term \<^verbatim>\<open>coffee\<close>.
\<close>

definition out_violations :: llm_out where
  "out_violations =
     \<lparr>narrative = Some ''I call PadInit and Foo [p1], then Coffee.'',
      citationsUsed = Some [''p1'', ''xyz''], tokensUsed = Some [''PadInit''],
      parse_error = None, raw_text = None\<rparr>"

text \<open>An answer that passes the lint, and the two passages it was given.\<close>

definition out_clean :: llm_out where
  "out_clean =
     \<lparr>narrative = Some ''I call PadInit [p1] on the PS1.'',
      citationsUsed = Some [''p1''], tokensUsed = Some [''PadInit''],
      parse_error = None, raw_text = None\<rparr>"

definition quotes_p1_p2 :: "quote list" where
  "quotes_p1_p2 = [\<lparr>qid = ''p1'', qtext = ''PadInit starts the driver.''\<rparr>,
                   \<lparr>qid = ''p2'', qtext = ''PadGetState reads the state.''\<rparr>]"

text \<open>An answer that cites \<^verbatim>\<open>xyz\<close>, which is not among the passages.\<close>

definition out_xyz :: llm_out where
  "out_xyz =
     \<lparr>narrative = Some ''I call PadInit [p1] and wait [xyz].'',
      citationsUsed = Some [''p1'', ''xyz''], tokensUsed = Some [''PadInit''],
      parse_error = None, raw_text = None\<rparr>"

text \<open>
  An answer of the service that wraps its object in other text, the braces of the last
  words included. \<^verbatim>\<open>json.loads\<close> on the three strings that the boundary and the example
  pass to it, with the errors that the standard library reports for them: the object
  parses, the object followed by more text is \<^verbatim>\<open>Extra data\<close> at the column behind it, and
  the wrapped answer, like any text that does not start with a value, is
  \<^verbatim>\<open>Expecting value\<close> at the first column.
\<close>

definition answer_object :: string where
  \<open>answer_object =
     ''{"narrative": "I call PadInit [p1].", "citationsUsed": ["p1"], "tokensUsed": ["PadInit"]}''\<close>

definition answer_wrapped :: string where
  "answer_wrapped = ''Answer: '' @ answer_object @ '' (ids in {braces})''"

definition answer_parsed :: llm_out where
  "answer_parsed =
     \<lparr>narrative = Some ''I call PadInit [p1].'', citationsUsed = Some [''p1''],
      tokensUsed = Some [''PadInit''], parse_error = None, raw_text = None\<rparr>"

definition loads_example :: "string \<Rightarrow> exn + llm_out" where
  "loads_example s =
     (if s = answer_object then Inr answer_parsed
      else if s = answer_object @ '' (ids in {braces}''
      then Inl (JSONDecodeError ''Extra data: line 1 column 91 (char 90)'')
      else Inl (JSONDecodeError ''Expecting value: line 1 column 1 (char 0)''))"

section \<open>The closure is a topological order\<close>


lemma for_each_inv:
  assumes step: "\<And>x s s'. x \<in> set xs \<Longrightarrow> P s \<Longrightarrow> f x s = Some s' \<Longrightarrow> P s'"
  shows "for_each f xs st = Some st' \<Longrightarrow> P st \<Longrightarrow> P st'"
  using step
proof (induction xs arbitrary: st)
  case Nil
  then show ?case by simp
next
  case (Cons x xs)
  from Cons.prems(1) obtain s1 where s1: "f x st = Some s1" and s2: "for_each f xs s1 = Some st'"
    by (cases "f x st") simp_all
  have p1: "P s1"
    by (rule Cons.prems(3)[OF _ Cons.prems(2) s1]) simp
  show ?case
  proof (rule Cons.IH[OF s2 p1])
    fix y s s'
    assume "y \<in> set xs" "P s" "f y s = Some s'"
    then show "P s'" using Cons.prems(3)[of y s s'] by simp
  qed
qed


lemma for_each_seen:
  assumes step: "\<And>x s s'. x \<in> set xs \<Longrightarrow> f x s = Some s' \<Longrightarrow>
      snd s \<subseteq> snd s' \<and> snd s' \<subseteq> snd s \<union> G x \<and> x \<in> snd s'"
  shows "for_each f xs st = Some st' \<Longrightarrow>
     snd st \<subseteq> snd st' \<and> snd st' \<subseteq> snd st \<union> (\<Union>x\<in>set xs. G x) \<and> set xs \<subseteq> snd st'"
  using step
proof (induction xs arbitrary: st)
  case Nil
  then show ?case by simp
next
  case (Cons x xs)
  from Cons.prems(1) obtain s1 where s1: "f x st = Some s1" and s2: "for_each f xs s1 = Some st'"
    by (cases "f x st") simp_all
  have a: "snd st \<subseteq> snd s1 \<and> snd s1 \<subseteq> snd st \<union> G x \<and> x \<in> snd s1"
    by (rule Cons.prems(2)[OF _ s1]) simp
  have b: "snd s1 \<subseteq> snd st' \<and> snd st' \<subseteq> snd s1 \<union> (\<Union>x\<in>set xs. G x) \<and> set xs \<subseteq> snd st'"
  proof (rule Cons.IH[OF s2])
    fix y s s'
    assume "y \<in> set xs" "f y s = Some s'"
    then show "snd s \<subseteq> snd s' \<and> snd s' \<subseteq> snd s \<union> G y \<and> y \<in> snd s'"
      using Cons.prems(2)[of y s s'] by simp
  qed
  have c1: "snd st \<subseteq> snd st'" using a b by blast
  have c2: "snd st' \<subseteq> snd st \<union> (\<Union>x\<in>set (x # xs). G x)" using a b by auto
  have c3: "set (x # xs) \<subseteq> snd st'" using a b by auto
  show ?case using c1 c2 c3 by (intro conjI)
qed

lemma reach_refl: "w \<in> reach rel w"
  by (simp add: reach_def)

lemma reach_step: "r \<in> set (requires_of rel w) \<Longrightarrow> reach rel r \<subseteq> reach rel w"
proof
  fix x
  assume r: "r \<in> set (requires_of rel w)" and x: "x \<in> reach rel r"
  from r have "(r, w) \<in> requires_rel rel" by (simp add: requires_rel_def)
  moreover from x have "(x, r) \<in> (requires_rel rel)\<^sup>*" by (simp add: reach_def)
  ultimately have "(x, w) \<in> (requires_rel rel)\<^sup>*" by (rule rtrancl_into_rtrancl[rotated])
  then show "x \<in> reach rel w" by (simp add: reach_def)
qed

lemma add_seen:
  "add rel n w st = Some st' \<Longrightarrow>
     snd st \<subseteq> snd st' \<and> snd st' \<subseteq> snd st \<union> reach rel w \<and> w \<in> snd st'"
proof (induction n arbitrary: w st st')
  case 0
  then show ?case by simp
next
  case (Suc n)
  show ?case
  proof (cases "w \<in> snd st")
    case True
    with Suc.prems have "st' = st" by simp
    with True show ?thesis by simp
  next
    case False
    with Suc.prems obtain s1 where s1: "for_each (add rel n) (requires_of rel w) st = Some s1"
      and st': "st' = (fst s1 @ [w], insert w (snd s1))"
      by (cases "for_each (add rel n) (requires_of rel w) st") simp_all
    have c: "snd st \<subseteq> snd s1 \<and> snd s1 \<subseteq> snd st \<union> (\<Union>x\<in>set (requires_of rel w). reach rel x)
        \<and> set (requires_of rel w) \<subseteq> snd s1"
      by (rule for_each_seen[OF _ s1]) (rule Suc.IH)
    have d: "(\<Union>x\<in>set (requires_of rel w). reach rel x) \<subseteq> reach rel w"
      using reach_step by blast
    have e: "snd st' = insert w (snd s1)" using st' by simp
    from c have c1: "snd st \<subseteq> snd s1"
      and c2: "snd s1 \<subseteq> snd st \<union> (\<Union>x\<in>set (requires_of rel w). reach rel x)" by simp_all
    have g1: "snd st \<subseteq> snd st'" unfolding e using c1 by (rule subset_insertI2)
    have "snd s1 \<subseteq> snd st \<union> reach rel w"
      using c2 d by (meson Un_mono subset_refl subset_trans)
    moreover have "w \<in> snd st \<union> reach rel w" using reach_refl[of w rel] by simp
    ultimately have g2: "snd st' \<subseteq> snd st \<union> reach rel w" unfolding e by simp
    have g3: "w \<in> snd st'" unfolding e by simp
    show ?thesis using g1 g2 g3 by (intro conjI)
  qed
qed


lemma closure_inv_init: "closure_inv rel ([], {})"
  by (simp add: closure_inv_def)

lemma closure_inv_snoc:
  assumes inv: "closure_inv rel st" and fresh: "w \<notin> snd st"
    and req: "set (requires_of rel w) \<subseteq> snd st"
  shows "closure_inv rel (fst st @ [w], insert w (snd st))"
proof -
  obtain out seen where st: "st = (out, seen)" by (cases st)
  from inv st have seen: "seen = set out" and dist: "distinct out"
    and ord: "\<And>i. i < length out \<Longrightarrow> set (requires_of rel (out ! i)) \<subseteq> set (take i out)"
    by (simp_all add: closure_inv_def)
  have "\<forall>i<length (out @ [w]). set (requires_of rel ((out @ [w]) ! i)) \<subseteq> set (take i (out @ [w]))"
  proof (intro allI impI)
    fix i assume i: "i < length (out @ [w])"
    show "set (requires_of rel ((out @ [w]) ! i)) \<subseteq> set (take i (out @ [w]))"
    proof (cases "i < length out")
      case True
      then show ?thesis using ord[of i] by (simp add: nth_append)
    next
      case False
      with i have "i = length out" by simp
      then show ?thesis using req st seen by simp
    qed
  qed
  moreover have "distinct (out @ [w])" using dist fresh st seen by simp
  moreover have "insert w seen = set (out @ [w])" using seen by simp
  ultimately show ?thesis unfolding closure_inv_def st by simp
qed

lemma acyclic_not_reach:
  assumes ac: "acyclic (requires_rel rel)" and r: "r \<in> set (requires_of rel w)"
  shows "w \<notin> reach rel r"
proof
  assume "w \<in> reach rel r"
  then have "(w, r) \<in> (requires_rel rel)\<^sup>*" by (simp add: reach_def)
  moreover from r have "(r, w) \<in> requires_rel rel" by (simp add: requires_rel_def)
  ultimately have "(w, w) \<in> (requires_rel rel)\<^sup>+" by (rule rtrancl_into_trancl1)
  with ac show False by (simp add: acyclic_def)
qed

lemma requires_fresh:
  assumes ac: "acyclic (requires_rel rel)" and fresh: "w \<notin> snd st"
    and run: "for_each (add rel n) (requires_of rel w) st = Some s1"
  shows "w \<notin> snd s1 \<and> set (requires_of rel w) \<subseteq> snd s1"
proof -
  have c: "snd st \<subseteq> snd s1 \<and> snd s1 \<subseteq> snd st \<union> (\<Union>x\<in>set (requires_of rel w). reach rel x)
        \<and> set (requires_of rel w) \<subseteq> snd s1"
    by (rule for_each_seen[OF _ run]) (rule add_seen)
  have "w \<notin> (\<Union>x\<in>set (requires_of rel w). reach rel x)"
    using acyclic_not_reach[OF ac] by simp
  with fresh have "w \<notin> snd st \<union> (\<Union>x\<in>set (requires_of rel w). reach rel x)" by simp
  with c have "w \<notin> snd s1" by (meson subsetD)
  with c show ?thesis by simp
qed

lemma add_inv:
  assumes ac: "acyclic (requires_rel rel)"
  shows "add rel n w st = Some st' \<Longrightarrow> closure_inv rel st \<Longrightarrow> closure_inv rel st'"
proof (induction n arbitrary: w st st')
  case 0
  then show ?case by simp
next
  case (Suc n)
  show ?case
  proof (cases "w \<in> snd st")
    case True
    with Suc.prems have "st' = st" by simp
    with Suc.prems show ?thesis by simp
  next
    case False
    with Suc.prems obtain s1 where s1: "for_each (add rel n) (requires_of rel w) st = Some s1"
      and st': "st' = (fst s1 @ [w], insert w (snd s1))"
      by (cases "for_each (add rel n) (requires_of rel w) st") simp_all
    have inv1: "closure_inv rel s1"
      by (rule for_each_inv[where P = "closure_inv rel", OF _ s1 Suc.prems(2)]) (rule Suc.IH)
    from requires_fresh[OF ac False s1]
    have "w \<notin> snd s1" and "set (requires_of rel w) \<subseteq> snd s1" by simp_all
    then show ?thesis unfolding st' by (rule closure_inv_snoc[OF inv1])
  qed
qed


lemma for_each_total:
  assumes "\<And>x s. x \<in> set xs \<Longrightarrow> f x s \<noteq> None"
  shows "for_each f xs st \<noteq> None"
  using assms
proof (induction xs arbitrary: st)
  case Nil
  then show ?case by simp
next
  case (Cons x xs)
  have "f x st \<noteq> None" by (rule Cons.prems) simp
  then obtain s1 where s1: "f x st = Some s1" by blast
  have "for_each f xs s1 \<noteq> None"
  proof (rule Cons.IH)
    fix y s assume "y \<in> set xs"
    then show "f y s \<noteq> None" using Cons.prems[of y s] by simp
  qed
  with s1 show ?case by simp
qed

lemma common_depth:
  assumes "\<forall>x\<in>set xs. \<exists>n. \<forall>m\<ge>n. Q x m"
  shows "\<exists>n::nat. \<forall>m\<ge>n. \<forall>x\<in>set xs. Q x m"
  using assms
proof (induction xs)
  case Nil
  then show ?case by simp
next
  case (Cons x xs)
  from Cons.prems obtain n1 where n1: "\<forall>m\<ge>n1. Q x m" by auto
  from Cons.prems have "\<forall>y\<in>set xs. \<exists>n. \<forall>m\<ge>n. Q y m" by simp
  from Cons.IH[OF this] obtain n2 where n2: "\<forall>m\<ge>n2. \<forall>y\<in>set xs. Q y m" by blast
  have "\<forall>m\<ge>max n1 n2. \<forall>y\<in>set (x # xs). Q y m"
    using n1 n2 by simp
  then show ?case by (rule exI)
qed

lemma finite_requires_rel: "finite (requires_rel rel)"
proof -
  have "requires_rel rel \<subseteq> (\<Union>w\<in>fst ` set rel. set (requires_of rel w) \<times> {w})"
  proof
    fix e assume "e \<in> requires_rel rel"
    then obtain r w where e: "e = (r, w)" and r: "r \<in> set (requires_of rel w)"
      by (auto simp: requires_rel_def)
    from r have "map_of rel w \<noteq> None" by (cases "map_of rel w") (simp_all add: requires_of_def)
    then have "w \<in> fst ` set rel" by (simp add: map_of_eq_None_iff)
    with r e show "e \<in> (\<Union>w\<in>fst ` set rel. set (requires_of rel w) \<times> {w})" by blast
  qed
  moreover have "finite (\<Union>w\<in>fst ` set rel. set (requires_of rel w) \<times> {w})" by simp
  ultimately show ?thesis by (rule finite_subset)
qed

lemma add_returns:
  assumes ac: "acyclic (requires_rel rel)"
  shows "\<exists>n. \<forall>m\<ge>n. \<forall>st. add rel m w st \<noteq> None"
proof -
  have wf: "wf (requires_rel rel)" using finite_requires_rel ac by (rule finite_acyclic_wf)
  show ?thesis
  using wf
  proof (induction w rule: wf_induct_rule)
    case (less w)
    have "\<forall>r\<in>set (requires_of rel w). \<exists>n. \<forall>m\<ge>n. \<forall>st. add rel m r st \<noteq> None"
    proof
      fix r assume "r \<in> set (requires_of rel w)"
      then have "(r, w) \<in> requires_rel rel" by (simp add: requires_rel_def)
      then show "\<exists>n. \<forall>m\<ge>n. \<forall>st. add rel m r st \<noteq> None" by (rule less.IH)
    qed
    from common_depth[OF this] obtain k
      where k: "\<forall>m\<ge>k. \<forall>r\<in>set (requires_of rel w). \<forall>st. add rel m r st \<noteq> None" by blast
    have "\<forall>m\<ge>Suc k. \<forall>st. add rel m w st \<noteq> None"
    proof (intro allI impI)
      fix m st assume "Suc k \<le> m"
      then obtain m' where m: "m = Suc m'" and km: "k \<le> m'" by (cases m) simp_all
      have "for_each (add rel m') (requires_of rel w) st \<noteq> None"
        by (rule for_each_total) (use k km in blast)
      then show "add rel m w st \<noteq> None" unfolding m by (cases "w \<in> snd st") auto
    qed
    then show ?case by (rule exI)
  qed
qed

lemma expand_returns:
  assumes ac: "acyclic (requires_rel rel)"
  shows "\<exists>n. \<forall>depth\<ge>n. expand_with_requires rel depth toks \<noteq> None"
proof -
  have "\<forall>t\<in>set toks. \<exists>n. \<forall>m\<ge>n. \<forall>st. add rel m t st \<noteq> None"
    using add_returns[OF ac] by blast
  from common_depth[OF this] obtain k
    where k: "\<forall>m\<ge>k. \<forall>t\<in>set toks. \<forall>st. add rel m t st \<noteq> None" by blast
  have "\<forall>depth\<ge>k. expand_with_requires rel depth toks \<noteq> None"
  proof (intro allI impI)
    fix depth assume "k \<le> depth"
    have "for_each (add rel depth) toks ([], {}) \<noteq> None"
      by (rule for_each_total) (use k \<open>k \<le> depth\<close> in blast)
    then show "expand_with_requires rel depth toks \<noteq> None"
      by (simp add: expand_with_requires_def)
  qed
  then show ?thesis by (rule exI)
qed


lemma for_each_agree:
  assumes agree: "\<And>x s. x \<in> set xs \<Longrightarrow> P s \<Longrightarrow> f x s = g x s"
    and pres: "\<And>x s s'. x \<in> set xs \<Longrightarrow> g x s = Some s' \<Longrightarrow> P s \<Longrightarrow> P s'"
  shows "P st \<Longrightarrow> for_each f xs st = for_each g xs st"
  using agree pres
proof (induction xs arbitrary: st)
  case Nil
  then show ?case by simp
next
  case (Cons x xs)
  have fx: "f x st = g x st" by (rule Cons.prems(2)[OF _ Cons.prems(1)]) simp
  show ?case
  proof (cases "g x st")
    case None
    with fx show ?thesis by simp
  next
    case (Some s1)
    have p1: "P s1" by (rule Cons.prems(3)[OF _ Some Cons.prems(1)]) simp
    have "for_each f xs s1 = for_each g xs s1"
    proof (rule Cons.IH[OF p1])
      fix y s assume "y \<in> set xs" "P s"
      then show "f y s = g y s" using Cons.prems(2)[of y s] by simp
    next
      fix y s s' assume "y \<in> set xs" "g y s = Some s'" "P s"
      then show "P s'" using Cons.prems(3)[of y s s'] by simp
    qed
    with fx Some show ?thesis by simp
  qed
qed

lemma add_with_requires_eq:
  assumes ac: "acyclic (requires_rel rel)"
  shows "closure_inv rel st \<Longrightarrow> add_with_requires rel n w st = add rel n w st"
proof (induction n arbitrary: w st)
  case 0
  then show ?case by simp
next
  case (Suc n)
  show ?case
  proof (cases "w \<in> snd st")
    case True
    then show ?thesis by simp
  next
    case False
    have fe: "for_each (add_with_requires rel n) (requires_of rel w) st
        = for_each (add rel n) (requires_of rel w) st"
      by (rule for_each_agree[where P = "closure_inv rel", OF Suc.IH add_inv[OF ac] Suc.prems])
    show ?thesis
    proof (cases "for_each (add rel n) (requires_of rel w) st")
      case None
      with fe False show ?thesis by simp
    next
      case (Some s1)
      from requires_fresh[OF ac False Some] have "w \<notin> snd s1" by simp
      with fe Some False show ?thesis by simp
    qed
  qed
qed

lemma topo_require_chain_eq:
  assumes ac: "acyclic (requires_rel rel)"
  shows "topo_require_chain rel depth targets = expand_with_requires rel depth targets"
proof -
  have "for_each (add_with_requires rel depth) targets ([], {})
      = for_each (add rel depth) targets ([], {})"
    by (rule for_each_agree[where P = "closure_inv rel",
          OF add_with_requires_eq[OF ac] add_inv[OF ac] closure_inv_init])
  then show ?thesis by (simp add: topo_require_chain_def expand_with_requires_def)
qed

lemma closure_inv_closed:
  assumes inv: "closure_inv rel st" and x: "x \<in> snd st"
    and path: "(r, x) \<in> (requires_rel rel)\<^sup>*"
  shows "r \<in> snd st"
  using path x
proof (induction rule: converse_rtrancl_induct)
  case base
  then show ?case .
next
  case (step y z)
  from step have z: "z \<in> set (fst st)" using inv by (simp add: closure_inv_def)
  then obtain i where i: "i < length (fst st)" and zi: "fst st ! i = z"
    by (auto simp: in_set_conv_nth)
  from inv i have "set (requires_of rel (fst st ! i)) \<subseteq> set (take i (fst st))"
    by (simp add: closure_inv_def)
  moreover from step.hyps(1) have "y \<in> set (requires_of rel z)" by (simp add: requires_rel_def)
  ultimately have "y \<in> set (take i (fst st))" using zi by blast
  then have "y \<in> set (fst st)" by (rule in_set_takeD)
  then show ?case using inv by (simp add: closure_inv_def)
qed

lemma closure_inv_precedes:
  assumes inv: "closure_inv rel (out, seen)" and i: "i < length out"
    and r: "r \<in> set (requires_of rel (out ! i))"
  shows "\<exists>j<i. out ! j = r"
proof -
  from inv i have "set (requires_of rel (out ! i)) \<subseteq> set (take i out)"
    by (simp add: closure_inv_def)
  with r have "r \<in> set (take i out)" by blast
  then obtain j where j: "j < length (take i out)" and rj: "take i out ! j = r"
    by (auto simp: in_set_conv_nth)
  from j have "j < i" by simp
  with rj have "out ! j = r" by simp
  with \<open>j < i\<close> show ?thesis by blast
qed

lemma expand_inv:
  assumes ac: "acyclic (requires_rel rel)"
    and run: "expand_with_requires rel depth toks = Some out"
  shows "closure_inv rel (out, set out) \<and> set toks \<subseteq> set out"
proof -
  from run obtain st' where st': "for_each (add rel depth) toks ([], {}) = Some st'"
    and out: "out = fst st'"
    by (auto simp: expand_with_requires_def)
  have inv: "closure_inv rel st'"
    by (rule for_each_inv[where P = "closure_inv rel", OF _ st' closure_inv_init])
       (rule add_inv[OF ac])
  have "snd (([], {})::closure_state) \<subseteq> snd st'
      \<and> snd st' \<subseteq> snd (([], {})::closure_state) \<union> (\<Union>x\<in>set toks. reach rel x)
      \<and> set toks \<subseteq> snd st'"
    by (rule for_each_seen[OF _ st']) (rule add_seen)
  then have "set toks \<subseteq> snd st'" by simp
  moreover from inv have "snd st' = set out" by (simp add: closure_inv_def out)
  moreover from inv have "closure_inv rel (out, set out)" by (simp add: closure_inv_def out)
  ultimately show ?thesis by simp
qed

text \<open>
  C1. When the requires relation is acyclic, the closure returns for every list of targets
  once the call stack is deep enough. Whatever it returns is also what
  \<^verbatim>\<open>topo_require_chain\<close> returns, holds every target and every symbol that a target
  requires through any number of steps, lists no symbol twice, and lists each element of a
  symbol's requires-list at a smaller index than the symbol.
\<close>

theorem expand_with_requires_topological:
  assumes ac: "acyclic (requires_rel rel)"
  shows "(\<exists>n. \<forall>depth\<ge>n. expand_with_requires rel depth targets \<noteq> None) \<and>
    (\<forall>depth out. expand_with_requires rel depth targets = Some out \<longrightarrow>
       topo_require_chain rel depth targets = Some out \<and>
       set targets \<subseteq> set out \<and>
       (\<forall>t\<in>set targets. \<forall>r. (r, t) \<in> (requires_rel rel)\<^sup>+ \<longrightarrow> r \<in> set out) \<and>
       distinct out \<and>
       (\<forall>i<length out. \<forall>r\<in>set (requires_of rel (out ! i)). \<exists>j<i. out ! j = r))"
proof (rule conjI)
  show "\<exists>n. \<forall>depth\<ge>n. expand_with_requires rel depth targets \<noteq> None"
    by (rule expand_returns[OF ac])
next
  show "\<forall>depth out. expand_with_requires rel depth targets = Some out \<longrightarrow>
       topo_require_chain rel depth targets = Some out \<and>
       set targets \<subseteq> set out \<and>
       (\<forall>t\<in>set targets. \<forall>r. (r, t) \<in> (requires_rel rel)\<^sup>+ \<longrightarrow> r \<in> set out) \<and>
       distinct out \<and>
       (\<forall>i<length out. \<forall>r\<in>set (requires_of rel (out ! i)). \<exists>j<i. out ! j = r)"
  proof (intro allI impI)
    fix depth out
    assume run: "expand_with_requires rel depth targets = Some out"
    from expand_inv[OF ac run] have inv: "closure_inv rel (out, set out)"
      and tg: "set targets \<subseteq> set out" by simp_all
    have p1: "topo_require_chain rel depth targets = Some out"
      using run by (simp add: topo_require_chain_eq[OF ac])
    have p3: "distinct out" using inv by (simp add: closure_inv_def)
    have p2: "\<forall>t\<in>set targets. \<forall>r. (r, t) \<in> (requires_rel rel)\<^sup>+ \<longrightarrow> r \<in> set out"
    proof (intro ballI allI impI)
      fix t r assume t: "t \<in> set targets" and "(r, t) \<in> (requires_rel rel)\<^sup>+"
      then have "(r, t) \<in> (requires_rel rel)\<^sup>*" by (simp add: trancl_into_rtrancl)
      moreover from t tg have "t \<in> snd (out, set out)" by auto
      ultimately have "r \<in> snd (out, set out)" by (rule closure_inv_closed[OF inv, rotated])
      then show "r \<in> set out" by simp
    qed
    have p4: "\<forall>i<length out. \<forall>r\<in>set (requires_of rel (out ! i)). \<exists>j<i. out ! j = r"
      using closure_inv_precedes[OF inv] by blast
    show "topo_require_chain rel depth targets = Some out \<and>
       set targets \<subseteq> set out \<and>
       (\<forall>t\<in>set targets. \<forall>r. (r, t) \<in> (requires_rel rel)\<^sup>+ \<longrightarrow> r \<in> set out) \<and>
       distinct out \<and>
       (\<forall>i<length out. \<forall>r\<in>set (requires_of rel (out ! i)). \<exists>j<i. out ! j = r)"
      using p1 tg p2 p3 p4 by (intro conjI)
  qed
qed

lemma requires_rel_pad: "requires_rel rel_pad = {(''PadInit'', ''PadGetState'')}"
  by (auto simp: requires_rel_def requires_of_def rel_pad_def split: if_splits)

lemma acyclic_rel_pad: "acyclic (requires_rel rel_pad)"
proof -
  have "acyclic ({}::(string \<times> string) set)" by (simp add: acyclic_def)
  then show ?thesis by (simp add: requires_rel_pad acyclic_insert)
qed

lemma expand_pad: "expand_with_requires rel_pad 2 [''PadGetState''] = Some [''PadInit'', ''PadGetState'']"
  by (simp add: expand_with_requires_def rel_pad_def requires_of_def numeral_2_eq_2)

theorem expand_with_requires_topological_witness:
  "acyclic (requires_rel rel_pad) \<and>
   expand_with_requires rel_pad 2 [''PadGetState''] = Some [''PadInit'', ''PadGetState''] \<and>
   topo_require_chain rel_pad 2 [''PadGetState''] = Some [''PadInit'', ''PadGetState''] \<and>
   distinct [''PadInit'', ''PadGetState'']"
proof -
  have ac: "acyclic (requires_rel rel_pad)" by (rule acyclic_rel_pad)
  have ev: "expand_with_requires rel_pad 2 [''PadGetState''] = Some [''PadInit'', ''PadGetState'']"
    by (rule expand_pad)
  from expand_with_requires_topological[OF ac, of "[''PadGetState'']"]
  have "\<forall>depth out. expand_with_requires rel_pad depth [''PadGetState''] = Some out \<longrightarrow>
       topo_require_chain rel_pad depth [''PadGetState''] = Some out \<and>
       set [''PadGetState''] \<subseteq> set out \<and>
       (\<forall>t\<in>set [''PadGetState'']. \<forall>r. (r, t) \<in> (requires_rel rel_pad)\<^sup>+ \<longrightarrow> r \<in> set out) \<and>
       distinct out \<and>
       (\<forall>i<length out. \<forall>r\<in>set (requires_of rel_pad (out ! i)). \<exists>j<i. out ! j = r)"
    by (rule conjunct2)
  from this[rule_format, OF ev]
  have "topo_require_chain rel_pad 2 [''PadGetState''] = Some [''PadInit'', ''PadGetState'']"
    and "distinct [''PadInit'', ''PadGetState'']" by simp_all
  with ac ev show ?thesis by simp
qed


section \<open>Properties of the passage selection\<close>


lemma selection_inv_init: "selection_inv T Pq corpus ([], {})"
  by (simp add: selection_inv_def)

lemma selection_inv_snoc:
  assumes inv: "selection_inv T Pq corpus st" and p: "p \<in> set corpus"
    and fresh: "pid p \<notin> snd st" and adm: "admitted T Pq p"
  shows "selection_inv T Pq corpus (fst st @ [quote_of p], insert (pid p) (snd st))"
proof -
  from inv have seen: "snd st = qid ` set (fst st)" and dist: "distinct (map qid (fst st))"
    and prov: "\<forall>q\<in>set (fst st). \<exists>p\<in>set corpus. q = quote_of p \<and> admitted T Pq p"
    by (simp_all add: selection_inv_def)
  have qp: "qid (quote_of p) = pid p" by (simp add: quote_of_def)
  have a: "insert (pid p) (snd st) = qid ` set (fst st @ [quote_of p])"
    using seen qp by simp
  have b: "distinct (map qid (fst st @ [quote_of p]))"
    using dist fresh seen qp by simp
  have c: "\<forall>q\<in>set (fst st @ [quote_of p]). \<exists>p\<in>set corpus. q = quote_of p \<and> admitted T Pq p"
  proof
    fix q assume "q \<in> set (fst st @ [quote_of p])"
    then have "q \<in> set (fst st) \<or> q = quote_of p" by auto
    then show "\<exists>p\<in>set corpus. q = quote_of p \<and> admitted T Pq p"
    proof
      assume "q \<in> set (fst st)"
      with prov show ?thesis by (rule bspec)
    next
      assume "q = quote_of p"
      with p adm show ?thesis by blast
    qed
  qed
  show ?thesis unfolding selection_inv_def using a b c by simp
qed

lemma non_backbone_pass_inv:
  assumes corpus: "set ps \<subseteq> set corpus"
  shows "selection_inv T Pq corpus st \<Longrightarrow>
     (case non_backbone_pass T mq ps st of
        Inl chosen \<Rightarrow> selection_inv T Pq corpus (chosen, qid ` set chosen)
      | Inr st' \<Rightarrow> selection_inv T Pq corpus st' \<and> snd st \<subseteq> snd st')"
  using corpus
proof (induction ps arbitrary: st)
  case Nil
  then show ?case by simp
next
  case (Cons p ps)
  from Cons.prems have pc: "p \<in> set corpus" and sub: "set ps \<subseteq> set corpus" by simp_all
  show ?case
  proof (cases "pid p \<in> snd st \<or> is_backbone p \<or> \<not> substantiates T p")
    case True
    then have eq: "non_backbone_pass T mq (p # ps) st = non_backbone_pass T mq ps st" by auto
    show ?thesis unfolding eq by (rule Cons.IH[OF Cons.prems(1) sub])
  next
    case False
    then have fresh: "pid p \<notin> snd st" and nb: "\<not> is_backbone p" and subst: "substantiates T p"
      by simp_all
    let ?st = "(fst st @ [quote_of p], insert (pid p) (snd st))"
    have adm: "admitted T Pq p" using nb subst by (simp add: admitted_def)
    have inv': "selection_inv T Pq corpus ?st"
      by (rule selection_inv_snoc[OF Cons.prems(1) pc fresh adm])
    show ?thesis
    proof (cases "int (length (fst st @ [quote_of p])) \<ge> mq")
      case True
      with fresh nb subst
      have eq: "non_backbone_pass T mq (p # ps) st = Inl (fst st @ [quote_of p])"
        by (simp add: Let_def)
      from inv' have "selection_inv T Pq corpus (fst st @ [quote_of p], qid ` set (fst st @ [quote_of p]))"
        by (simp add: selection_inv_def)
      then show ?thesis unfolding eq by simp
    next
      case False
      with fresh nb subst
      have eq: "non_backbone_pass T mq (p # ps) st = non_backbone_pass T mq ps ?st"
        by (simp add: Let_def)
      have ih: "case non_backbone_pass T mq ps ?st of
          Inl chosen \<Rightarrow> selection_inv T Pq corpus (chosen, qid ` set chosen)
        | Inr st' \<Rightarrow> selection_inv T Pq corpus st' \<and> snd ?st \<subseteq> snd st'"
        by (rule Cons.IH[OF inv' sub])
      show ?thesis unfolding eq using ih by (cases "non_backbone_pass T mq ps ?st") auto
    qed
  qed
qed


lemma non_backbone_pass_bound:
  "int (length (fst st)) < max 1 mq \<Longrightarrow>
     (case non_backbone_pass T mq ps st of
        Inl chosen \<Rightarrow> int (length chosen) \<le> max 1 mq \<and> mq \<le> int (length chosen)
      | Inr st' \<Rightarrow> int (length (fst st')) < max 1 mq)"
proof (induction ps arbitrary: st)
  case Nil
  then show ?case by simp
next
  case (Cons p ps)
  show ?case
  proof (cases "pid p \<in> snd st \<or> is_backbone p \<or> \<not> substantiates T p")
    case True
    then have eq: "non_backbone_pass T mq (p # ps) st = non_backbone_pass T mq ps st" by auto
    show ?thesis unfolding eq by (rule Cons.IH[OF Cons.prems])
  next
    case False
    then have fresh: "pid p \<notin> snd st" and nb: "\<not> is_backbone p" and subst: "substantiates T p"
      by simp_all
    let ?st = "(fst st @ [quote_of p], insert (pid p) (snd st))"
    show ?thesis
    proof (cases "int (length (fst st @ [quote_of p])) \<ge> mq")
      case True
      with fresh nb subst
      have eq: "non_backbone_pass T mq (p # ps) st = Inl (fst st @ [quote_of p])"
        by (simp add: Let_def)
      have "int (length (fst st @ [quote_of p])) \<le> max 1 mq" using Cons.prems by simp
      with True show ?thesis unfolding eq by simp
    next
      case False
      with fresh nb subst
      have eq: "non_backbone_pass T mq (p # ps) st = non_backbone_pass T mq ps ?st"
        by (simp add: Let_def)
      from False have "int (length (fst ?st)) < max 1 mq" by simp
      then show ?thesis unfolding eq by (rule Cons.IH)
    qed
  qed
qed

lemma non_backbone_pass_complete:
  "non_backbone_pass T mq ps st = Inr st' \<Longrightarrow>
     snd st \<subseteq> snd st' \<and> (\<forall>p\<in>set ps. \<not> is_backbone p \<and> substantiates T p \<longrightarrow> pid p \<in> snd st')"
proof (induction ps arbitrary: st)
  case Nil
  then show ?case by simp
next
  case (Cons p ps)
  show ?case
  proof (cases "pid p \<in> snd st \<or> is_backbone p \<or> \<not> substantiates T p")
    case True
    then have eq: "non_backbone_pass T mq (p # ps) st = non_backbone_pass T mq ps st" by auto
    with Cons.prems have run: "non_backbone_pass T mq ps st = Inr st'" by simp
    from Cons.IH[OF run] have mono: "snd st \<subseteq> snd st'"
      and rest: "\<forall>p\<in>set ps. \<not> is_backbone p \<and> substantiates T p \<longrightarrow> pid p \<in> snd st'"
      by simp_all
    have "\<not> is_backbone p \<and> substantiates T p \<longrightarrow> pid p \<in> snd st'"
      using True mono by blast
    with mono rest show ?thesis by simp
  next
    case False
    then have fresh: "pid p \<notin> snd st" and nb: "\<not> is_backbone p" and subst: "substantiates T p"
      by simp_all
    let ?st = "(fst st @ [quote_of p], insert (pid p) (snd st))"
    have run: "non_backbone_pass T mq ps ?st = Inr st'"
    proof (cases "int (length (fst st @ [quote_of p])) \<ge> mq")
      case True
      with fresh nb subst
      have "non_backbone_pass T mq (p # ps) st = Inl (fst st @ [quote_of p])"
        by (simp add: Let_def)
      with Cons.prems show ?thesis by simp
    next
      case False
      with fresh nb subst
      have "non_backbone_pass T mq (p # ps) st = non_backbone_pass T mq ps ?st"
        by (simp add: Let_def)
      with Cons.prems show ?thesis by simp
    qed
    from Cons.IH[OF run] have mono: "snd ?st \<subseteq> snd st'"
      and rest: "\<forall>p\<in>set ps. \<not> is_backbone p \<and> substantiates T p \<longrightarrow> pid p \<in> snd st'"
      by simp_all
    from mono have "snd st \<subseteq> snd st'" and "pid p \<in> snd st'" by simp_all
    with rest show ?thesis by simp
  qed
qed

lemma backbone_pass_inv:
  assumes corpus: "set ps \<subseteq> set corpus"
  shows "selection_inv T Pq corpus st \<Longrightarrow>
     selection_inv T Pq corpus (backbone_pass Pq mq ps st) \<and> snd st \<subseteq> snd (backbone_pass Pq mq ps st)"
  using corpus
proof (induction ps arbitrary: st)
  case Nil
  then show ?case by simp
next
  case (Cons p ps)
  from Cons.prems have pc: "p \<in> set corpus" and sub: "set ps \<subseteq> set corpus" by simp_all
  show ?case
  proof (cases "pid p \<in> snd st \<or> \<not> is_backbone p \<or> \<not> substantiates Pq p")
    case True
    then have eq: "backbone_pass Pq mq (p # ps) st = backbone_pass Pq mq ps st" by auto
    show ?thesis unfolding eq by (rule Cons.IH[OF Cons.prems(1) sub])
  next
    case False
    then have fresh: "pid p \<notin> snd st" and bb: "is_backbone p" and subst: "substantiates Pq p"
      by simp_all
    let ?st = "(fst st @ [quote_of p], insert (pid p) (snd st))"
    have adm: "admitted T Pq p" using bb subst by (simp add: admitted_def)
    have inv': "selection_inv T Pq corpus ?st"
      by (rule selection_inv_snoc[OF Cons.prems(1) pc fresh adm])
    show ?thesis
    proof (cases "int (length (fst st @ [quote_of p])) \<ge> mq")
      case True
      with fresh bb subst
      have eq: "backbone_pass Pq mq (p # ps) st = ?st" by (simp add: Let_def)
      show ?thesis unfolding eq using inv' by auto
    next
      case False
      with fresh bb subst
      have eq: "backbone_pass Pq mq (p # ps) st = backbone_pass Pq mq ps ?st"
        by (simp add: Let_def)
      from Cons.IH[OF inv' sub]
      have "selection_inv T Pq corpus (backbone_pass Pq mq ps ?st)"
        and "snd ?st \<subseteq> snd (backbone_pass Pq mq ps ?st)" by simp_all
      then show ?thesis unfolding eq by auto
    qed
  qed
qed

lemma backbone_pass_bound:
  "int (length (fst st)) < max 1 mq \<Longrightarrow>
     int (length (fst (backbone_pass Pq mq ps st))) \<le> max 1 mq"
proof (induction ps arbitrary: st)
  case Nil
  then show ?case by simp
next
  case (Cons p ps)
  show ?case
  proof (cases "pid p \<in> snd st \<or> \<not> is_backbone p \<or> \<not> substantiates Pq p")
    case True
    then have eq: "backbone_pass Pq mq (p # ps) st = backbone_pass Pq mq ps st" by auto
    show ?thesis unfolding eq by (rule Cons.IH[OF Cons.prems])
  next
    case False
    then have fresh: "pid p \<notin> snd st" and bb: "is_backbone p" and subst: "substantiates Pq p"
      by simp_all
    let ?st = "(fst st @ [quote_of p], insert (pid p) (snd st))"
    show ?thesis
    proof (cases "int (length (fst st @ [quote_of p])) \<ge> mq")
      case True
      with fresh bb subst
      have eq: "backbone_pass Pq mq (p # ps) st = ?st" by (simp add: Let_def)
      show ?thesis unfolding eq using Cons.prems by simp
    next
      case False
      with fresh bb subst
      have eq: "backbone_pass Pq mq (p # ps) st = backbone_pass Pq mq ps ?st"
        by (simp add: Let_def)
      from False have "int (length (fst ?st)) < max 1 mq" by simp
      then show ?thesis unfolding eq by (rule Cons.IH)
    qed
  qed
qed


lemma select_from_inv:
  "selection_inv T Pq corpus (select_from T Pq corpus mq, qid ` set (select_from T Pq corpus mq))"
proof (cases "non_backbone_pass T mq corpus ([], {})")
  case (Inl chosen)
  from non_backbone_pass_inv[OF subset_refl selection_inv_init, of T Pq corpus mq] Inl
  have "selection_inv T Pq corpus (chosen, qid ` set chosen)" by simp
  with Inl show ?thesis by (simp add: select_from_def)
next
  case (Inr st)
  from non_backbone_pass_inv[OF subset_refl selection_inv_init, of T Pq corpus mq] Inr
  have inv: "selection_inv T Pq corpus st" by simp
  from backbone_pass_inv[OF subset_refl inv, of mq]
  have "selection_inv T Pq corpus (backbone_pass Pq mq corpus st)" by simp
  then have "selection_inv T Pq corpus
      (fst (backbone_pass Pq mq corpus st), qid ` set (fst (backbone_pass Pq mq corpus st)))"
    by (simp add: selection_inv_def)
  with Inr show ?thesis by (simp add: select_from_def)
qed

lemma select_from_bound: "int (length (select_from T Pq corpus mq)) \<le> max 1 mq"
proof -
  have start: "int (length (fst (([], {})::quote list \<times> string set))) < max 1 mq" by simp
  show ?thesis
  proof (cases "non_backbone_pass T mq corpus ([], {})")
    case (Inl chosen)
    with non_backbone_pass_bound[OF start, of T corpus] show ?thesis
      by (simp add: select_from_def)
  next
    case (Inr st)
    with non_backbone_pass_bound[OF start, of T corpus]
    have "int (length (fst st)) < max 1 mq" by simp
    from backbone_pass_bound[OF this] Inr show ?thesis by (simp add: select_from_def)
  qed
qed

lemma select_from_eligible:
  assumes room: "int (length (select_from T Pq corpus mq)) < mq"
    and p: "p \<in> set corpus" "\<not> is_backbone p" "substantiates T p"
  shows "pid p \<in> qid ` set (select_from T Pq corpus mq)"
proof (cases "non_backbone_pass T mq corpus ([], {})")
  case (Inl chosen)
  have start: "int (length (fst (([], {})::quote list \<times> string set))) < max 1 mq" by simp
  from non_backbone_pass_bound[OF start, of T corpus] Inl have "mq \<le> int (length chosen)" by simp
  moreover from Inl have "select_from T Pq corpus mq = chosen" by (simp add: select_from_def)
  ultimately show ?thesis using room by simp
next
  case (Inr st)
  from non_backbone_pass_complete[OF Inr] p have in_st: "pid p \<in> snd st" by blast
  from non_backbone_pass_inv[OF subset_refl selection_inv_init, of T Pq corpus mq] Inr
  have inv: "selection_inv T Pq corpus st" by simp
  from backbone_pass_inv[OF subset_refl inv, of mq]
  have inv2: "selection_inv T Pq corpus (backbone_pass Pq mq corpus st)"
    and mono: "snd st \<subseteq> snd (backbone_pass Pq mq corpus st)" by simp_all
  from inv2 have "snd (backbone_pass Pq mq corpus st) = qid ` set (fst (backbone_pass Pq mq corpus st))"
    by (simp add: selection_inv_def)
  with mono in_st have "pid p \<in> qid ` set (fst (backbone_pass Pq mq corpus st))" by blast
  with Inr show ?thesis by (simp add: select_from_def)
qed

lemma expand_set:
  assumes ac: "acyclic (requires_rel rel)"
    and run: "expand_with_requires rel depth toks = Some out"
  shows "set out = closure rel (set toks)"
proof
  from run obtain st' where st': "for_each (add rel depth) toks ([], {}) = Some st'"
    and out: "out = fst st'"
    by (auto simp: expand_with_requires_def)
  from expand_inv[OF ac run] have inv: "closure_inv rel (out, set out)"
    and tg: "set toks \<subseteq> set out" by simp_all
  have "snd (([], {})::closure_state) \<subseteq> snd st'
      \<and> snd st' \<subseteq> snd (([], {})::closure_state) \<union> (\<Union>x\<in>set toks. reach rel x)
      \<and> set toks \<subseteq> snd st'"
    by (rule for_each_seen[OF _ st']) (rule add_seen)
  then have "snd st' \<subseteq> (\<Union>x\<in>set toks. reach rel x)" by simp
  moreover have "snd st' = set out"
  proof -
    have "closure_inv rel st'"
      by (rule for_each_inv[where P = "closure_inv rel", OF _ st' closure_inv_init])
         (rule add_inv[OF ac])
    then show ?thesis by (simp add: closure_inv_def out)
  qed
  ultimately show "set out \<subseteq> closure rel (set toks)"
    by (auto simp: closure_def reach_def)
  show "closure rel (set toks) \<subseteq> set out"
  proof
    fix x assume "x \<in> closure rel (set toks)"
    then obtain t where t: "t \<in> set toks" and path: "(x, t) \<in> (requires_rel rel)\<^sup>*"
      by (auto simp: closure_def)
    from t tg have "t \<in> snd (out, set out)" by auto
    from closure_inv_closed[OF inv this path] show "x \<in> set out" by simp
  qed
qed

lemma select_returns:
  assumes ac: "acyclic (requires_rel rel)"
  shows "\<exists>n. \<forall>depth\<ge>n. select_passages_event_minimal iter rel depth A corpus mq \<noteq> None"
proof -
  from expand_returns[OF ac, of "iter 4 A"] obtain n1
    where n1: "\<forall>depth\<ge>n1. expand_with_requires rel depth (iter 4 A) \<noteq> None" by blast
  from expand_returns[OF ac, of "iter 5 A"] obtain n2
    where n2: "\<forall>depth\<ge>n2. expand_with_requires rel depth (iter 5 A) \<noteq> None" by blast
  have "\<forall>depth\<ge>max n1 n2. select_passages_event_minimal iter rel depth A corpus mq \<noteq> None"
  proof (intro allI impI)
    fix depth assume d: "max n1 n2 \<le> depth"
    from d n1 obtain e1 where e1: "expand_with_requires rel depth (iter 4 A) = Some e1" by auto
    from d n2 obtain e2 where e2: "expand_with_requires rel depth (iter 5 A) = Some e2" by auto
    show "select_passages_event_minimal iter rel depth A corpus mq \<noteq> None"
      by (simp add: select_passages_event_minimal_def requires_set_def e1 e2)
  qed
  then show ?thesis by (rule exI)
qed

lemma select_unfold:
  assumes ac: "acyclic (requires_rel rel)" and it: "iteration_order iter" and fin: "finite A"
    and run: "select_passages_event_minimal iter rel depth A corpus mq = Some chosen"
  shows "chosen = select_from (closure rel A) (closure rel A - A) corpus mq"
proof -
  from run obtain ex where e1: "expand_with_requires rel depth (iter 4 A) = Some ex"
    by (cases "expand_with_requires rel depth (iter 4 A)")
       (simp_all add: select_passages_event_minimal_def)
  from run e1 obtain pq where e2: "requires_set iter rel depth A = Some pq"
    by (cases "requires_set iter rel depth A") (simp_all add: select_passages_event_minimal_def)
  from e2 obtain ex2 where e3: "expand_with_requires rel depth (iter 5 A) = Some ex2"
    and pq: "pq = set ex2 - A"
    by (auto simp: requires_set_def)
  from it fin have s4: "set (iter 4 A) = A" and s5: "set (iter 5 A) = A"
    by (simp_all add: iteration_order_def)
  from expand_set[OF ac e1] s4 have T: "set ex = closure rel A" by simp
  from expand_set[OF ac e3] s5 pq have P: "pq = closure rel A - A" by simp
  from run e1 e2 T P show ?thesis by (simp add: select_passages_event_minimal_def)
qed


lemma select_is_select_from:
  assumes run: "select_passages_event_minimal iter rel depth A corpus mq = Some chosen"
  shows "\<exists>T Pq. chosen = select_from T Pq corpus mq"
proof -
  from run obtain ex where e1: "expand_with_requires rel depth (iter 4 A) = Some ex"
    by (cases "expand_with_requires rel depth (iter 4 A)")
       (simp_all add: select_passages_event_minimal_def)
  from run e1 obtain pq where e2: "requires_set iter rel depth A = Some pq"
    by (cases "requires_set iter rel depth A") (simp_all add: select_passages_event_minimal_def)
  from run e1 e2 have "chosen = select_from (set ex) pq corpus mq"
    by (simp add: select_passages_event_minimal_def)
  then show ?thesis by blast
qed

lemma iteration_order_ascending: "iteration_order ascending"
  by (simp add: iteration_order_def ascending_def)

lemma select_pad:
  "select_passages_event_minimal ascending rel_pad 2 {''PadGetState''} corpus_pad 4
     = Some [quote_of p_state, quote_of p_init]"
  by (simp add: select_passages_event_minimal_def requires_set_def ascending_def
      expand_with_requires_def rel_pad_def requires_of_def numeral_2_eq_2
      select_from_def corpus_pad_def p_state_def p_init_def p_reset_def is_backbone_def
      substantiates_def quote_of_def Let_def)

text \<open>
  C3. The ids of the selected passages are pairwise distinct, and for a quota of at least
  one the selection has at most \<^verbatim>\<open>max_quotes\<close> entries. The selection returns whenever
  the closure does.
\<close>

theorem select_passages_bounded_distinct:
  "(acyclic (requires_rel rel) \<longrightarrow>
      (\<exists>n. \<forall>depth\<ge>n. select_passages_event_minimal iter rel depth A corpus mq \<noteq> None)) \<and>
   (\<forall>depth chosen. select_passages_event_minimal iter rel depth A corpus mq = Some chosen \<longrightarrow>
      distinct (map qid chosen) \<and> (1 \<le> mq \<longrightarrow> int (length chosen) \<le> mq))"
proof (rule conjI)
  show "acyclic (requires_rel rel) \<longrightarrow>
      (\<exists>n. \<forall>depth\<ge>n. select_passages_event_minimal iter rel depth A corpus mq \<noteq> None)"
    using select_returns by blast
next
  show "\<forall>depth chosen. select_passages_event_minimal iter rel depth A corpus mq = Some chosen \<longrightarrow>
      distinct (map qid chosen) \<and> (1 \<le> mq \<longrightarrow> int (length chosen) \<le> mq)"
  proof (intro allI impI)
    fix depth chosen
    assume run: "select_passages_event_minimal iter rel depth A corpus mq = Some chosen"
    from select_is_select_from[OF run] obtain T Pq
      where ch: "chosen = select_from T Pq corpus mq" by blast
    from select_from_inv[of T Pq corpus mq] have d: "distinct (map qid chosen)"
      by (simp add: selection_inv_def ch)
    have b: "1 \<le> mq \<longrightarrow> int (length chosen) \<le> mq"
      using select_from_bound[of T Pq corpus mq] unfolding ch by linarith
    from d b show "distinct (map qid chosen) \<and> (1 \<le> mq \<longrightarrow> int (length chosen) \<le> mq)"
      by (rule conjI)
  qed
qed

theorem select_passages_bounded_distinct_witness:
  "acyclic (requires_rel rel_pad) \<and>
   select_passages_event_minimal ascending rel_pad 2 {''PadGetState''} corpus_pad 4
     = Some [quote_of p_state, quote_of p_init] \<and> (1::int) \<le> 4 \<and>
   distinct (map qid [quote_of p_state, quote_of p_init]) \<and>
   int (length [quote_of p_state, quote_of p_init]) \<le> 4"
proof -
  have run: "select_passages_event_minimal ascending rel_pad 2 {''PadGetState''} corpus_pad 4
     = Some [quote_of p_state, quote_of p_init]" by (rule select_pad)
  from select_passages_bounded_distinct[of rel_pad ascending "{''PadGetState''}" corpus_pad 4]
  have "\<forall>depth chosen.
      select_passages_event_minimal ascending rel_pad depth {''PadGetState''} corpus_pad 4 = Some chosen \<longrightarrow>
      distinct (map qid chosen) \<and> ((1::int) \<le> 4 \<longrightarrow> int (length chosen) \<le> 4)"
    by (rule conjunct2)
  from this[rule_format, OF run]
  have "distinct (map qid [quote_of p_state, quote_of p_init])"
    and "int (length [quote_of p_state, quote_of p_init]) \<le> 4" by simp_all
  with acyclic_rel_pad run show ?thesis by simp
qed

theorem select_passages_quota_counterexample:
  "select_passages_event_minimal ascending rel_pad 2 {''PadGetState''} corpus_pad 0
     = Some [quote_of p_state] \<and>
   \<not> int (length [quote_of p_state]) \<le> 0"
  by (simp add: select_passages_event_minimal_def requires_set_def ascending_def
      expand_with_requires_def rel_pad_def requires_of_def numeral_2_eq_2
      select_from_def corpus_pad_def p_state_def p_init_def p_reset_def is_backbone_def
      substantiates_def quote_of_def Let_def)


lemma closure_pad: "closure rel_pad {''PadGetState''} = {''PadGetState'', ''PadInit''}"
proof -
  have "set [''PadInit'', ''PadGetState''] = closure rel_pad (set [''PadGetState''])"
    by (rule expand_set[OF acyclic_rel_pad expand_pad])
  then show ?thesis by auto
qed

text \<open>
  C2. With \<open>T\<close> the closure of the activated set and \<open>prereq_only\<close> the closure without the
  activated symbols: every selected entry was made from a passage of the corpus that is
  either not backbone and substantiates a symbol of \<open>T\<close>, or backbone and substantiates a
  symbol of \<open>prereq_only\<close>; when the ids of the corpus are distinct, a backbone passage whose
  id is selected substantiates a symbol of \<open>prereq_only\<close>; and while the quota is not
  reached, every non-backbone passage that substantiates a symbol of \<open>T\<close> is selected.
\<close>

theorem backbone_only_for_prerequisites:
  assumes ac: "acyclic (requires_rel rel)" and it: "iteration_order iter" and fin: "finite A"
  shows "(\<exists>n. \<forall>depth\<ge>n. select_passages_event_minimal iter rel depth A corpus mq \<noteq> None) \<and>
    (\<forall>depth chosen. select_passages_event_minimal iter rel depth A corpus mq = Some chosen \<longrightarrow>
       (\<forall>q\<in>set chosen. \<exists>p\<in>set corpus. q = quote_of p \<and>
           admitted (closure rel A) (closure rel A - A) p) \<and>
       (distinct (map pid corpus) \<longrightarrow>
          (\<forall>p\<in>set corpus. is_backbone p \<and> pid p \<in> qid ` set chosen \<longrightarrow>
             substantiates (closure rel A - A) p)) \<and>
       (\<forall>p\<in>set corpus. \<not> is_backbone p \<and> substantiates (closure rel A) p \<and>
             int (length chosen) < mq \<longrightarrow> pid p \<in> qid ` set chosen))"
proof (rule conjI)
  show "\<exists>n. \<forall>depth\<ge>n. select_passages_event_minimal iter rel depth A corpus mq \<noteq> None"
    by (rule select_returns[OF ac])
next
  show "\<forall>depth chosen. select_passages_event_minimal iter rel depth A corpus mq = Some chosen \<longrightarrow>
       (\<forall>q\<in>set chosen. \<exists>p\<in>set corpus. q = quote_of p \<and>
           admitted (closure rel A) (closure rel A - A) p) \<and>
       (distinct (map pid corpus) \<longrightarrow>
          (\<forall>p\<in>set corpus. is_backbone p \<and> pid p \<in> qid ` set chosen \<longrightarrow>
             substantiates (closure rel A - A) p)) \<and>
       (\<forall>p\<in>set corpus. \<not> is_backbone p \<and> substantiates (closure rel A) p \<and>
             int (length chosen) < mq \<longrightarrow> pid p \<in> qid ` set chosen)"
  proof (intro allI impI)
    fix depth chosen
    assume run: "select_passages_event_minimal iter rel depth A corpus mq = Some chosen"
    let ?T = "closure rel A" and ?P = "closure rel A - A"
    have ch: "chosen = select_from ?T ?P corpus mq"
      by (rule select_unfold[OF ac it fin run])
    from select_from_inv[of ?T ?P corpus mq]
    have prov: "\<forall>q\<in>set chosen. \<exists>p\<in>set corpus. q = quote_of p \<and> admitted ?T ?P p"
      by (simp add: selection_inv_def ch)
    have ids: "distinct (map pid corpus) \<longrightarrow>
          (\<forall>p\<in>set corpus. is_backbone p \<and> pid p \<in> qid ` set chosen \<longrightarrow> substantiates ?P p)"
    proof (intro impI ballI)
      fix p
      assume dist: "distinct (map pid corpus)" and p: "p \<in> set corpus"
        and bp: "is_backbone p \<and> pid p \<in> qid ` set chosen"
      from bp obtain q where q: "q \<in> set chosen" and qp: "qid q = pid p" by auto
      from prov q obtain p' where p': "p' \<in> set corpus" and qq: "q = quote_of p'"
        and adm: "admitted ?T ?P p'" by blast
      from qq qp have "pid p' = pid p" by (simp add: quote_of_def)
      moreover from dist have "inj_on pid (set corpus)" by (simp add: distinct_map)
      ultimately have "p' = p" using p p' by (simp add: inj_on_def)
      with adm bp show "substantiates ?P p" by (simp add: admitted_def)
    qed
    have elig: "\<forall>p\<in>set corpus. \<not> is_backbone p \<and> substantiates ?T p \<and>
             int (length chosen) < mq \<longrightarrow> pid p \<in> qid ` set chosen"
    proof (intro ballI impI)
      fix p
      assume p: "p \<in> set corpus"
        and h: "\<not> is_backbone p \<and> substantiates ?T p \<and> int (length chosen) < mq"
      from h have room: "int (length (select_from ?T ?P corpus mq)) < mq" by (simp add: ch)
      from h have nb: "\<not> is_backbone p" and sb: "substantiates ?T p" by simp_all
      from select_from_eligible[OF room p nb sb] show "pid p \<in> qid ` set chosen"
        by (simp add: ch)
    qed
    from prov ids elig
    show "(\<forall>q\<in>set chosen. \<exists>p\<in>set corpus. q = quote_of p \<and> admitted ?T ?P p) \<and>
       (distinct (map pid corpus) \<longrightarrow>
          (\<forall>p\<in>set corpus. is_backbone p \<and> pid p \<in> qid ` set chosen \<longrightarrow> substantiates ?P p)) \<and>
       (\<forall>p\<in>set corpus. \<not> is_backbone p \<and> substantiates ?T p \<and>
             int (length chosen) < mq \<longrightarrow> pid p \<in> qid ` set chosen)"
      by (intro conjI)
  qed
qed

theorem backbone_only_for_prerequisites_witness:
  "acyclic (requires_rel rel_pad) \<and> iteration_order ascending \<and> finite {''PadGetState''} \<and>
   select_passages_event_minimal ascending rel_pad 2 {''PadGetState''} corpus_pad 4
     = Some [quote_of p_state, quote_of p_init] \<and>
   distinct (map pid corpus_pad) \<and>
   p_init \<in> set corpus_pad \<and> is_backbone p_init \<and>
   pid p_init \<in> qid ` set [quote_of p_state, quote_of p_init] \<and>
   substantiates (closure rel_pad {''PadGetState''} - {''PadGetState''}) p_init \<and>
   p_state \<in> set corpus_pad \<and> \<not> is_backbone p_state \<and>
   substantiates (closure rel_pad {''PadGetState''}) p_state \<and>
   int (length [quote_of p_state, quote_of p_init]) < 4 \<and>
   pid p_state \<in> qid ` set [quote_of p_state, quote_of p_init]"
proof -
  let ?chosen = "[quote_of p_state, quote_of p_init]"
  have fin: "finite {''PadGetState''}" by simp
  have run: "select_passages_event_minimal ascending rel_pad 2 {''PadGetState''} corpus_pad 4
     = Some ?chosen" by (rule select_pad)
  have dist: "distinct (map pid corpus_pad)"
    by (simp add: corpus_pad_def p_state_def p_init_def p_reset_def)
  have init: "p_init \<in> set corpus_pad" "is_backbone p_init" "pid p_init \<in> qid ` set ?chosen"
    by (simp_all add: corpus_pad_def is_backbone_def p_init_def quote_of_def)
  have state: "p_state \<in> set corpus_pad" "\<not> is_backbone p_state"
      "substantiates (closure rel_pad {''PadGetState''}) p_state"
      "int (length ?chosen) < 4"
    by (simp_all add: corpus_pad_def is_backbone_def p_state_def substantiates_def closure_pad)
  from backbone_only_for_prerequisites[OF acyclic_rel_pad iteration_order_ascending fin,
      of corpus_pad 4]
  have "\<forall>depth chosen.
      select_passages_event_minimal ascending rel_pad depth {''PadGetState''} corpus_pad 4 = Some chosen \<longrightarrow>
       (\<forall>q\<in>set chosen. \<exists>p\<in>set corpus_pad. q = quote_of p \<and>
           admitted (closure rel_pad {''PadGetState''})
             (closure rel_pad {''PadGetState''} - {''PadGetState''}) p) \<and>
       (distinct (map pid corpus_pad) \<longrightarrow>
          (\<forall>p\<in>set corpus_pad. is_backbone p \<and> pid p \<in> qid ` set chosen \<longrightarrow>
             substantiates (closure rel_pad {''PadGetState''} - {''PadGetState''}) p)) \<and>
       (\<forall>p\<in>set corpus_pad. \<not> is_backbone p \<and>
             substantiates (closure rel_pad {''PadGetState''}) p \<and>
             int (length chosen) < 4 \<longrightarrow> pid p \<in> qid ` set chosen)"
    by (rule conjunct2)
  from this[rule_format, OF run]
  have b: "distinct (map pid corpus_pad) \<longrightarrow>
          (\<forall>p\<in>set corpus_pad. is_backbone p \<and> pid p \<in> qid ` set ?chosen \<longrightarrow>
             substantiates (closure rel_pad {''PadGetState''} - {''PadGetState''}) p)"
    and e: "\<forall>p\<in>set corpus_pad. \<not> is_backbone p \<and>
             substantiates (closure rel_pad {''PadGetState''}) p \<and>
             int (length ?chosen) < 4 \<longrightarrow> pid p \<in> qid ` set ?chosen"
    by blast+
  from b dist init
  have c1: "substantiates (closure rel_pad {''PadGetState''} - {''PadGetState''}) p_init"
    by blast
  from e state have c2: "pid p_state \<in> qid ` set ?chosen" by blast
  from acyclic_rel_pad iteration_order_ascending fin run dist init c1 state c2
  show ?thesis by (intro conjI)
qed


section \<open>Properties of the interpreter and of the fallback\<close>


lemma sort_iteration:
  assumes it: "iteration_order iter" and fin: "finite S"
  shows "sort (iter k S) = sorted_list_of_set S"
proof -
  from it fin have s: "set (iter k S) = S" and d: "distinct (iter k S)"
    by (simp_all add: iteration_order_def)
  have "sorted (sort (iter k S))" by simp
  moreover have "distinct (sort (iter k S))" using d by simp
  moreover have "set (sort (iter k S)) = set (sorted_list_of_set S)" using s fin by simp
  moreover have "sorted (sorted_list_of_set S)" by simp
  moreover have "distinct (sorted_list_of_set S)" by simp
  ultimately show ?thesis by (metis sorted_distinct_set_unique)
qed

lemma fold_union: "fold (\<lambda>t acc. acc \<union> set (f t)) ts X = X \<union> (\<Union>t\<in>set ts. set (f t))"
  by (induction ts arbitrary: X) auto

lemma fold_insert_all: "fold (\<lambda>t acc. fold insert (f t) acc) ts X = X \<union> (\<Union>t\<in>set ts. set (f t))"
proof (induction ts arbitrary: X)
  case Nil
  then show ?case by simp
next
  case (Cons t ts)
  have "fold insert (f t) X = set (f t) \<union> X" by (simp add: union_set_fold)
  then show ?case using Cons.IH by auto
qed


lemma fold_keep: "fold (\<lambda>w acc. if P w then insert w acc else acc) ws X = X \<union> {w \<in> set ws. P w}"
  by (induction ws arbitrary: X) auto

lemma fold_keep_all:
  "fold (\<lambda>n acc. acc \<union> {w \<in> set (g n). P w}) ns X = X \<union> {w. \<exists>n\<in>set ns. w \<in> set (g n) \<and> P w}"
proof (induction ns arbitrary: X)
  case Nil
  then show ?case by simp
next
  case (Cons n ns)
  have "fold (\<lambda>n acc. acc \<union> {w \<in> set (g n). P w}) (n # ns) X
      = (X \<union> {w \<in> set (g n). P w}) \<union> {w. \<exists>n\<in>set ns. w \<in> set (g n) \<and> P w}"
    by (simp add: Cons.IH)
  also have "\<dots> = X \<union> {w. \<exists>m\<in>set (n # ns). w \<in> set (g m) \<and> P w}" by auto
  finally show ?case .
qed

lemma fold_sdk:
  "fold (\<lambda>n acc. fold (\<lambda>w acc'. if P w then insert w acc' else acc') (g n) acc) ns X
     = X \<union> {w. \<exists>n\<in>set ns. w \<in> set (g n) \<and> P w}"
  by (simp add: fold_keep fold_keep_all)

lemma finite_neutral: "finite (\<Union>t\<in>set ts. set (f t))"
  by simp

lemma lex_mapped_iff: "lex_mapped nm t \<longleftrightarrow> lex_lookup nm t \<noteq> []"
  by (cases "map_of (lex2neutral nm) t") (simp_all add: lex_mapped_def lex_lookup_def)

lemma finite_activated_set: "finite (activated_set lower d text)"
proof -
  have "activated_set lower d text \<subseteq>
      (\<Union>t\<in>set (tokenize lower text). \<Union>n\<in>set (lex_lookup (NEUT_MAP d) t). set (sdk_lookup (NEUT_MAP d) n))"
    by (auto simp: activated_set_def)
  moreover have "finite (\<Union>t\<in>set (tokenize lower text). \<Union>n\<in>set (lex_lookup (NEUT_MAP d) t).
      set (sdk_lookup (NEUT_MAP d) n))" by simp
  ultimately show ?thesis by (rule finite_subset)
qed

lemma sdk_of_neutral:
  assumes it: "iteration_order iter"
  shows "fold (\<lambda>n acc.
            fold (\<lambda>w acc'. if in_vocabulary (SYMBOLS d) w then insert w acc' else acc')
                 (sdk_lookup (NEUT_MAP d) n) acc)
            (iter k (\<Union>t\<in>set (tokenize lower text). set (lex_lookup (NEUT_MAP d) t))) {}
         = activated_set lower d text"
proof -
  let ?N = "\<Union>t\<in>set (tokenize lower text). set (lex_lookup (NEUT_MAP d) t)"
  have "finite ?N" by simp
  with it have s: "set (iter k ?N) = ?N" by (simp add: iteration_order_def)
  show ?thesis unfolding fold_sdk s by (auto simp: activated_set_def)
qed

lemma interpret_event_sets:
  assumes it: "iteration_order iter"
  shows "bag_of_api (interpret_event lower iter d text) = sorted_list_of_set (activated_set lower d text)"
    and "unrepresentable (interpret_event lower iter d text) = sorted_list_of_set (unmapped_set lower d text)"
proof -
  have un: "set (tokenize lower text) - {x \<in> set (tokenize lower text). lex_mapped (NEUT_MAP d) x}
      = unmapped_set lower d text"
    by (auto simp: unmapped_set_def lex_mapped_iff)
  have fin: "finite (unmapped_set lower d text)" by (simp add: unmapped_set_def)
  show "bag_of_api (interpret_event lower iter d text) = sorted_list_of_set (activated_set lower d text)"
    by (simp add: interpret_event_def Let_def fold_union sdk_of_neutral[OF it]
        sort_iteration[OF it finite_activated_set])
  show "unrepresentable (interpret_event lower iter d text) = sorted_list_of_set (unmapped_set lower d text)"
    by (simp add: interpret_event_def Let_def un sort_iteration[OF it fin])
qed


lemma sort_filter_iteration:
  assumes it: "iteration_order iter" and fin: "finite S"
  shows "sort (filter Q (iter k S)) = sorted_list_of_set {x \<in> S. Q x}"
proof -
  from it fin have s: "set (iter k S) = S" and d: "distinct (iter k S)"
    by (simp_all add: iteration_order_def)
  have f: "finite {x \<in> S. Q x}" using fin by simp
  have "sorted (sort (filter Q (iter k S)))" by simp
  moreover have "distinct (sort (filter Q (iter k S)))" using d by simp
  moreover have "set (sort (filter Q (iter k S))) = set (sorted_list_of_set {x \<in> S. Q x})"
    using s f by auto
  moreover have "sorted (sorted_list_of_set {x \<in> S. Q x})" by simp
  moreover have "distinct (sorted_list_of_set {x \<in> S. Q x})" by simp
  ultimately show ?thesis by (metis sorted_distinct_set_unique)
qed

lemma to_neutral_set: "to_neutral nm toks = (\<Union>t\<in>set toks. set (lex_lookup nm t))"
  by (simp add: to_neutral_def fold_insert_all)

lemma neutral_to_sdk_set:
  assumes it: "iteration_order iter"
  shows "neutral_to_sdk iter (SYMBOLS d) (NEUT_MAP d) (to_neutral (NEUT_MAP d) (tokenize lower text))
     = activated_set lower d text"
  unfolding neutral_to_sdk_def to_neutral_set by (rule sdk_of_neutral[OF it])

lemma standalone_sets:
  assumes it: "iteration_order iter"
  shows "interpret_event_standalone lower iter d depth text =
     (case topo_require_chain (REL d) depth (desired_present lower d text) of
        None \<Rightarrow> None
      | Some chain \<Rightarrow>
          Some \<lparr>api_sentence = chain,
                observable_rows =
                  fst (tableau_rows (SYMBOLS d) (REL d) (sorted_list_of_set (activated_set lower d text))),
                callable_rows =
                  snd (tableau_rows (SYMBOLS d) (REL d) (sorted_list_of_set (activated_set lower d text))),
                bag = sorted_list_of_set (activated_set lower d text),
                unrep_terms = sorted_list_of_set (unmapped_set lower d text)\<rparr>)"
proof -
  have un: "{x \<in> set (tokenize lower text). x \<notin> set (filter (lex_mapped (NEUT_MAP d)) (tokenize lower text))}
      = unmapped_set lower d text"
    by (auto simp: unmapped_set_def lex_mapped_iff)
  have u: "sort (filter (\<lambda>t. t \<notin> set (filter (lex_mapped (NEUT_MAP d)) (tokenize lower text)))
              (iter 13 (set (tokenize lower text))))
      = sorted_list_of_set (unmapped_set lower d text)"
    using sort_filter_iteration[OF it, of "set (tokenize lower text)"
        "\<lambda>t. t \<notin> set (filter (lex_mapped (NEUT_MAP d)) (tokenize lower text))" 13]
    unfolding un by simp
  have b: "\<And>k. sort (iter k (activated_set lower d text)) = sorted_list_of_set (activated_set lower d text)"
    by (rule sort_iteration[OF it finite_activated_set])
  show ?thesis
    unfolding interpret_event_standalone_def Let_def neutral_to_sdk_set[OF it]
      build_state_tableau_def u b desired_present_def
    by (rule refl)
qed


lemma iteration_order_descending: "iteration_order descending"
  by (simp add: iteration_order_def descending_def)

lemma tokenize_coffee: "tokenize lower_ascii ''Coffee spill!'' = [''coffee'', ''spill'']"
  by (simp add: tokenize_def lower_ascii_def is_token_char_def)

lemma tokenize_pressed: "tokenize lower_ascii ''controller pressed, coffee'' = [''controller'', ''pressed'', ''coffee'']"
  by (simp add: tokenize_def lower_ascii_def is_token_char_def)

lemma interpret_pressed:
  "interpret_event lower_ascii ascending d_pad ''controller pressed, coffee''
     = \<lparr>bag_of_api = [''PadGetState'', ''PadInit''], unrepresentable = [''coffee'']\<rparr>"
  by code_simp


lemma standalone_returns:
  assumes ac: "acyclic (requires_rel (REL d))" and it: "iteration_order iter"
  shows "\<exists>n. \<forall>depth\<ge>n. interpret_event_standalone lower iter d depth text \<noteq> None"
proof -
  from expand_returns[OF ac, of "desired_present lower d text"] obtain n
    where n: "\<forall>depth\<ge>n. expand_with_requires (REL d) depth (desired_present lower d text) \<noteq> None"
    by blast
  have "\<forall>depth\<ge>n. interpret_event_standalone lower iter d depth text \<noteq> None"
  proof (intro allI impI)
    fix depth assume "n \<le> depth"
    with n obtain chain
      where "expand_with_requires (REL d) depth (desired_present lower d text) = Some chain" by auto
    then have "topo_require_chain (REL d) depth (desired_present lower d text) = Some chain"
      by (simp add: topo_require_chain_eq[OF ac])
    then show "interpret_event_standalone lower iter d depth text \<noteq> None"
      by (simp add: standalone_sets[OF it])
  qed
  then show ?thesis by (rule exI)
qed

text \<open>
  C9. Two runs of the interpretation of a text, whatever order each of them iterates its
  sets in, give the same result: the same activated symbols and the same unrepresentable
  terms. The stand-alone interpreter is deterministic in all its fields.
\<close>

theorem interpretation_deterministic:
  assumes it1: "iteration_order iter1" and it2: "iteration_order iter2"
  shows "interpret_event lower iter1 d text = interpret_event lower iter2 d text \<and>
    (\<forall>depth. interpret_event_standalone lower iter1 d depth text
        = interpret_event_standalone lower iter2 d depth text)"
proof (rule conjI)
  show "interpret_event lower iter1 d text = interpret_event lower iter2 d text"
    by (rule interp_result.equality)
       (simp_all add: interpret_event_sets[OF it1] interpret_event_sets[OF it2])
  show "\<forall>depth. interpret_event_standalone lower iter1 d depth text
        = interpret_event_standalone lower iter2 d depth text"
    by (simp add: standalone_sets[OF it1] standalone_sets[OF it2])
qed

theorem interpretation_deterministic_witness:
  "iteration_order ascending \<and> iteration_order descending \<and>
   interpret_event lower_ascii ascending d_pad ''controller pressed, coffee''
     = interpret_event lower_ascii descending d_pad ''controller pressed, coffee'' \<and>
   interpret_event lower_ascii descending d_pad ''controller pressed, coffee''
     = \<lparr>bag_of_api = [''PadGetState'', ''PadInit''], unrepresentable = [''coffee'']\<rparr>"
proof -
  from interpretation_deterministic[OF iteration_order_ascending iteration_order_descending,
      of lower_ascii d_pad "''controller pressed, coffee''"]
  have eq: "interpret_event lower_ascii ascending d_pad ''controller pressed, coffee''
     = interpret_event lower_ascii descending d_pad ''controller pressed, coffee''" by (rule conjunct1)
  with interpret_pressed iteration_order_ascending iteration_order_descending
  show ?thesis by simp
qed

text \<open>
  C7. The unrepresentable terms are exactly the tokens whose lexicon lookup gives no
  neutral tag, each listed once. They do not depend on the vocabulary or on the map from
  tags to symbols, and the stand-alone interpreter reports the same list. The tokens are
  those of the lowered text, whatever function \<^verbatim>\<open>str.lower()\<close> is.
\<close>

theorem unrepresentable_iff_no_neutral_tag:
  assumes it: "iteration_order iter"
  shows "set (unrepresentable (interpret_event lower iter d text))
      = {t \<in> set (tokenize lower text). lex_lookup (NEUT_MAP d) t = []} \<and>
    distinct (unrepresentable (interpret_event lower iter d text)) \<and>
    (\<forall>d'. lex2neutral (NEUT_MAP d') = lex2neutral (NEUT_MAP d) \<longrightarrow>
        unrepresentable (interpret_event lower iter d' text)
          = unrepresentable (interpret_event lower iter d text)) \<and>
    (\<forall>depth r. interpret_event_standalone lower iter d depth text = Some r \<longrightarrow>
        unrep_terms r = unrepresentable (interpret_event lower iter d text)) \<and>
    (acyclic (requires_rel (REL d)) \<longrightarrow>
        (\<exists>n. \<forall>depth\<ge>n. interpret_event_standalone lower iter d depth text \<noteq> None))"
proof (intro conjI)
  have fin: "finite (unmapped_set lower d text)" by (simp add: unmapped_set_def)
  show "set (unrepresentable (interpret_event lower iter d text))
      = {t \<in> set (tokenize lower text). lex_lookup (NEUT_MAP d) t = []}"
    using fin by (simp add: interpret_event_sets[OF it]) (simp add: unmapped_set_def)
  show "distinct (unrepresentable (interpret_event lower iter d text))"
    by (simp add: interpret_event_sets[OF it])
  show "\<forall>d'. lex2neutral (NEUT_MAP d') = lex2neutral (NEUT_MAP d) \<longrightarrow>
        unrepresentable (interpret_event lower iter d' text)
          = unrepresentable (interpret_event lower iter d text)"
  proof (intro allI impI)
    fix d' :: data assume "lex2neutral (NEUT_MAP d') = lex2neutral (NEUT_MAP d)"
    then have "unmapped_set lower d' text = unmapped_set lower d text"
      by (simp add: unmapped_set_def lex_lookup_def)
    then show "unrepresentable (interpret_event lower iter d' text)
          = unrepresentable (interpret_event lower iter d text)"
      by (simp add: interpret_event_sets[OF it])
  qed
  show "\<forall>depth r. interpret_event_standalone lower iter d depth text = Some r \<longrightarrow>
        unrep_terms r = unrepresentable (interpret_event lower iter d text)"
  proof (intro allI impI)
    fix depth r assume "interpret_event_standalone lower iter d depth text = Some r"
    then show "unrep_terms r = unrepresentable (interpret_event lower iter d text)"
      by (cases "topo_require_chain (REL d) depth (desired_present lower d text)")
         (auto simp: standalone_sets[OF it] interpret_event_sets[OF it])
  qed
  show "acyclic (requires_rel (REL d)) \<longrightarrow>
        (\<exists>n. \<forall>depth\<ge>n. interpret_event_standalone lower iter d depth text \<noteq> None)"
    using standalone_returns[OF _ it] by blast
qed


lemma standalone_pressed:
  "interpret_event_standalone lower_ascii ascending d_pad 2 ''controller pressed, coffee''
     = Some \<lparr>api_sentence = [''PadInit'', ''PadGetState'', ''PAD_STATE_*''],
             observable_rows = [''PadGetState '' @ arrow @ '' PAD_STATE_*''],
             callable_rows = [''PadInit''],
             bag = [''PadGetState'', ''PadInit''],
             unrep_terms = [''coffee'']\<rparr>"
  by code_simp

lemma bag_no_vocabulary:
  "bag_of_api (interpret_event lower_ascii ascending d_no_vocabulary ''controller pressed, coffee'') = []"
  by code_simp

theorem unrepresentable_iff_no_neutral_tag_witness:
  "iteration_order ascending \<and>
   lex2neutral (NEUT_MAP d_no_vocabulary) = lex2neutral (NEUT_MAP d_pad) \<and>
   bag_of_api (interpret_event lower_ascii ascending d_no_vocabulary ''controller pressed, coffee'') = [] \<and>
   unrepresentable (interpret_event lower_ascii ascending d_no_vocabulary ''controller pressed, coffee'')
     = [''coffee''] \<and>
   acyclic (requires_rel (REL d_pad)) \<and>
   map_option unrep_terms (interpret_event_standalone lower_ascii ascending d_pad 2 ''controller pressed, coffee'')
     = Some (unrepresentable (interpret_event lower_ascii ascending d_pad ''controller pressed, coffee''))"
proof -
  let ?text = "''controller pressed, coffee''"
  have same: "lex2neutral (NEUT_MAP d_no_vocabulary) = lex2neutral (NEUT_MAP d_pad)"
    by (simp add: d_no_vocabulary_def)
  have ac: "acyclic (requires_rel (REL d_pad))"
    using acyclic_rel_pad by (simp add: d_pad_def)
  note inst = unrepresentable_iff_no_neutral_tag[OF iteration_order_ascending, of lower_ascii d_pad ?text]
  from inst have "\<forall>d'. lex2neutral (NEUT_MAP d') = lex2neutral (NEUT_MAP d_pad) \<longrightarrow>
        unrepresentable (interpret_event lower_ascii ascending d' ?text)
          = unrepresentable (interpret_event lower_ascii ascending d_pad ?text)" by blast
  from this[rule_format, OF same]
  have u: "unrepresentable (interpret_event lower_ascii ascending d_no_vocabulary ?text) = [''coffee'']"
    by (simp add: interpret_pressed)
  from inst have "\<forall>depth r. interpret_event_standalone lower_ascii ascending d_pad depth ?text = Some r \<longrightarrow>
        unrep_terms r = unrepresentable (interpret_event lower_ascii ascending d_pad ?text)" by blast
  from this[rule_format, OF standalone_pressed]
  have s: "map_option unrep_terms (interpret_event_standalone lower_ascii ascending d_pad 2 ?text)
     = Some (unrepresentable (interpret_event lower_ascii ascending d_pad ?text))"
    by (simp add: standalone_pressed)
  from iteration_order_ascending same bag_no_vocabulary u ac s show ?thesis by (intro conjI)
qed

lemma activated_empty_iff:
  assumes it: "iteration_order iter"
  shows "bag_of_api (interpret_event lower iter d text) = [] \<longleftrightarrow> activated_set lower d text = {}"
  using finite_activated_set[of lower d "text"]
  by (simp add: interpret_event_sets[OF it] sorted_list_of_set_eq_Nil_iff)

lemma all_unmapped_no_activation:
  assumes "\<forall>t\<in>set (tokenize lower text). lex_lookup (NEUT_MAP d) t = []"
  shows "activated_set lower d text = {}"
  using assms by (auto simp: activated_set_def)

lemma full_count_all_unmapped:
  assumes it: "iteration_order iter"
    and len: "length (unrepresentable (interpret_event lower iter d text)) = length (tokenize lower text)"
  shows "\<forall>t\<in>set (tokenize lower text). lex_lookup (NEUT_MAP d) t = []"
proof -
  let ?U = "unmapped_set lower d text" and ?S = "set (tokenize lower text)"
  have fin: "finite ?U" and sub: "?U \<subseteq> ?S" by (auto simp: unmapped_set_def)
  have "length (unrepresentable (interpret_event lower iter d text)) = card ?U"
    using fin by (simp add: interpret_event_sets[OF it])
  with len have c: "card ?U = length (tokenize lower text)" by simp
  have "card ?U \<le> card ?S" using sub by (simp add: card_mono)
  moreover have "card ?S \<le> length (tokenize lower text)" by (rule card_length)
  ultimately have "card ?U = card ?S" using c by simp
  with sub have "?U = ?S" by (simp add: card_subset_eq)
  then show ?thesis by (auto simp: unmapped_set_def)
qed

text \<open>
  C10. The fallback guard holds exactly when no symbol is activated. When the number of
  unrepresentable terms equals the number of tokens, every token is without a neutral tag
  and nothing is activated, so the second disjunct of the guard never decides. The tokens
  are those of the lowered text, whatever function \<^verbatim>\<open>str.lower()\<close> is.
\<close>

theorem fallback_guard_iff_nothing_activated:
  assumes it: "iteration_order iter"
  shows "(fallback_guard lower (set (bag_of_api (interpret_event lower iter d text)))
            (unrepresentable (interpret_event lower iter d text)) text
          \<longleftrightarrow> bag_of_api (interpret_event lower iter d text) = []) \<and>
    (length (unrepresentable (interpret_event lower iter d text)) = length (tokenize lower text) \<longrightarrow>
       (\<forall>t\<in>set (tokenize lower text). lex_lookup (NEUT_MAP d) t = []) \<and>
       bag_of_api (interpret_event lower iter d text) = [])"
proof -
  have second: "length (unrepresentable (interpret_event lower iter d text)) = length (tokenize lower text) \<longrightarrow>
       (\<forall>t\<in>set (tokenize lower text). lex_lookup (NEUT_MAP d) t = []) \<and>
       bag_of_api (interpret_event lower iter d text) = []"
  proof
    assume len: "length (unrepresentable (interpret_event lower iter d text)) = length (tokenize lower text)"
    have un: "\<forall>t\<in>set (tokenize lower text). lex_lookup (NEUT_MAP d) t = []"
      by (rule full_count_all_unmapped[OF it len])
    from all_unmapped_no_activation[OF un]
    have "bag_of_api (interpret_event lower iter d text) = []"
      by (simp add: activated_empty_iff[OF it])
    with un show "(\<forall>t\<in>set (tokenize lower text). lex_lookup (NEUT_MAP d) t = []) \<and>
       bag_of_api (interpret_event lower iter d text) = []" by simp
  qed
  have first: "fallback_guard lower (set (bag_of_api (interpret_event lower iter d text)))
            (unrepresentable (interpret_event lower iter d text)) text
          \<longleftrightarrow> bag_of_api (interpret_event lower iter d text) = []"
    using second by (auto simp: fallback_guard_def)
  from first second show ?thesis by (rule conjI)
qed

lemma interpret_coffee:
  "interpret_event lower_ascii ascending d_pad ''Coffee spill!''
     = \<lparr>bag_of_api = [], unrepresentable = [''coffee'', ''spill'']\<rparr>"
  by code_simp

theorem fallback_guard_iff_nothing_activated_witness:
  "iteration_order ascending \<and>
   length (unrepresentable (interpret_event lower_ascii ascending d_pad ''Coffee spill!''))
     = length (tokenize lower_ascii ''Coffee spill!'') \<and>
   tokenize lower_ascii ''Coffee spill!'' = [''coffee'', ''spill''] \<and>
   lex_lookup (NEUT_MAP d_pad) ''coffee'' = [] \<and> lex_lookup (NEUT_MAP d_pad) ''spill'' = [] \<and>
   bag_of_api (interpret_event lower_ascii ascending d_pad ''Coffee spill!'') = [] \<and>
   fallback_guard lower_ascii (set (bag_of_api (interpret_event lower_ascii ascending d_pad ''Coffee spill!'')))
     (unrepresentable (interpret_event lower_ascii ascending d_pad ''Coffee spill!'')) ''Coffee spill!''"
proof -
  let ?I = "interpret_event lower_ascii ascending d_pad ''Coffee spill!''"
  have len: "length (unrepresentable ?I) = length (tokenize lower_ascii ''Coffee spill!'')"
    by (simp add: interpret_coffee tokenize_coffee)
  note inst = fallback_guard_iff_nothing_activated[OF iteration_order_ascending,
      of lower_ascii d_pad "''Coffee spill!''"]
  from inst len have a: "(\<forall>t\<in>set (tokenize lower_ascii ''Coffee spill!''). lex_lookup (NEUT_MAP d_pad) t = [])"
    and b: "bag_of_api ?I = []" by blast+
  from inst b have c: "fallback_guard lower_ascii (set (bag_of_api ?I)) (unrepresentable ?I) ''Coffee spill!''"
    by blast
  have l: "lex_lookup (NEUT_MAP d_pad) ''coffee'' = []" "lex_lookup (NEUT_MAP d_pad) ''spill'' = []"
    using a by (simp_all add: tokenize_coffee)
  from iteration_order_ascending len tokenize_coffee l b c show ?thesis by (intro conjI)
qed


lemma fallback_taken:
  assumes "fallback_guard lower (set (bag_of_api (interpret_event lower iter d text)))
             (unrepresentable (interpret_event lower iter d text)) text"
  shows "generate_narrative lower is_word ci_eq iter d llm loads depth text = Inr fallback"
  using assms by (simp add: generate_narrative_def Let_def)

text \<open>
  C6. When the interpretation of the text activates no symbol, or reports as many
  unrepresentable terms as the text has tokens, the orchestrator returns the fixed fallback
  result, whatever the service, the parser and the depth of the call stack: the later stages
  are not run. A text whose tokens are all absent from the lexicon is such a text. The
  fallback result has the canned narrative, no citations, no tokens and a valid verdict.
  The tokens are those of the lowered text, whatever function \<^verbatim>\<open>str.lower()\<close> is, and
  the character database that the lint would use plays no part.
\<close>

theorem fallback_when_nothing_activated:
  "(bag_of_api (interpret_event lower iter d text) = [] \<or>
      length (unrepresentable (interpret_event lower iter d text)) = length (tokenize lower text) \<longrightarrow>
      generate_narrative lower is_word ci_eq iter d llm loads depth text = Inr fallback) \<and>
   (iteration_order iter \<and> (\<forall>t\<in>set (tokenize lower text). lex_lookup (NEUT_MAP d) t = []) \<longrightarrow>
      generate_narrative lower is_word ci_eq iter d llm loads depth text = Inr fallback) \<and>
   narrative fallback =
     Some (''No part of the PlayStation SDK vocabulary can be used to describe this event. '' @
           ''The input does not map to any known SDK concepts or tokens.'') \<and>
   citationsUsed fallback = Some [] \<and> tokensUsed fallback = Some [] \<and> res_ok fallback"
proof (intro conjI impI)
  assume "bag_of_api (interpret_event lower iter d text) = [] \<or>
      length (unrepresentable (interpret_event lower iter d text)) = length (tokenize lower text)"
  then have "fallback_guard lower (set (bag_of_api (interpret_event lower iter d text)))
             (unrepresentable (interpret_event lower iter d text)) text"
    by (auto simp: fallback_guard_def)
  then show "generate_narrative lower is_word ci_eq iter d llm loads depth text = Inr fallback"
    by (rule fallback_taken)
next
  assume h: "iteration_order iter \<and> (\<forall>t\<in>set (tokenize lower text). lex_lookup (NEUT_MAP d) t = [])"
  then have it: "iteration_order iter"
    and un: "\<forall>t\<in>set (tokenize lower text). lex_lookup (NEUT_MAP d) t = []" by simp_all
  from all_unmapped_no_activation[OF un] have "bag_of_api (interpret_event lower iter d text) = []"
    by (simp add: activated_empty_iff[OF it])
  then have "fallback_guard lower (set (bag_of_api (interpret_event lower iter d text)))
             (unrepresentable (interpret_event lower iter d text)) text"
    by (simp add: fallback_guard_def)
  then show "generate_narrative lower is_word ci_eq iter d llm loads depth text = Inr fallback"
    by (rule fallback_taken)
qed (simp_all add: fallback_def)

theorem fallback_when_nothing_activated_witness:
  "bag_of_api (interpret_event lower_ascii ascending d_pad ''Coffee spill!'') = [] \<and>
   iteration_order ascending \<and>
   tokenize lower_ascii ''Coffee spill!'' = [''coffee'', ''spill''] \<and>
   lex_lookup (NEUT_MAP d_pad) ''coffee'' = [] \<and> lex_lookup (NEUT_MAP d_pad) ''spill'' = [] \<and>
   generate_narrative lower_ascii word_ascii ci_eq_ascii ascending d_pad llm_down loads_reject 0 ''Coffee spill!'' = Inr fallback \<and>
   generate_narrative lower_ascii word_ascii ci_eq_ascii ascending d_pad llm_down loads_reject 2 ''Coffee spill!'' = Inr fallback"
proof -
  have b: "bag_of_api (interpret_event lower_ascii ascending d_pad ''Coffee spill!'') = []"
    by (simp add: interpret_coffee)
  have un: "\<forall>t\<in>set (tokenize lower_ascii ''Coffee spill!''). lex_lookup (NEUT_MAP d_pad) t = []"
    by (simp add: tokenize_coffee lex_lookup_def d_pad_def)
  from fallback_when_nothing_activated[of lower_ascii ascending d_pad "''Coffee spill!''"
      word_ascii ci_eq_ascii llm_down loads_reject 0] b
  have g1: "generate_narrative lower_ascii word_ascii ci_eq_ascii ascending d_pad llm_down loads_reject 0 ''Coffee spill!'' = Inr fallback"
    by blast
  from fallback_when_nothing_activated[of lower_ascii ascending d_pad "''Coffee spill!''"
      word_ascii ci_eq_ascii llm_down loads_reject 2]
    iteration_order_ascending un
  have g2: "generate_narrative lower_ascii word_ascii ci_eq_ascii ascending d_pad llm_down loads_reject 2 ''Coffee spill!'' = Inr fallback"
    by blast
  have l: "lex_lookup (NEUT_MAP d_pad) ''coffee'' = []" "lex_lookup (NEUT_MAP d_pad) ''spill'' = []"
    by (simp_all add: lex_lookup_def d_pad_def)
  from b iteration_order_ascending tokenize_coffee l g1 g2 show ?thesis by (intro conjI)
qed


section \<open>Properties of the lint\<close>


lemma fold_flag:
  "fold (flag V m) xs st = (fst st \<and> \<not> (\<exists>x\<in>set xs. V x), snd st @ map m (filter V xs))"
proof (induction xs arbitrary: st)
  case Nil
  then show ?case by simp
next
  case (Cons x xs)
  have step: "fold (flag V m) (x # xs) st = fold (flag V m) xs (flag V m x st)" by simp
  show ?case unfolding step Cons.IH by (cases "V x") (simp_all add: flag_def)
qed

lemma lint_output_eq:
  "lint_output is_word ci_eq iter out allowed provided banned =
     (\<not> (\<exists>t\<in>set (iter 6 (set (findall_capitalized is_word (narrative_text out)))).
            t \<notin> allowed \<and> t \<notin> {''I'', ''PS1''}) \<and>
      citation_set out \<noteq> {} \<and>
      \<not> (\<exists>cid\<in>set (iter 7 (citation_set out)). cid \<notin> set provided) \<and>
      \<not> (\<exists>term\<in>set (case banned of None \<Rightarrow> [] | Some ts \<Rightarrow> ts).
            search_term is_word ci_eq term (narrative_text out)),
      map unallowed_msg
          (filter (\<lambda>t. t \<notin> allowed \<and> t \<notin> {''I'', ''PS1''})
             (iter 6 (set (findall_capitalized is_word (narrative_text out))))) @
      (if citation_set out = {} then [no_citations_msg] else []) @
      map bad_citation_msg
          (filter (\<lambda>cid. cid \<notin> set provided) (iter 7 (citation_set out))) @
      map banned_msg
          (filter (\<lambda>term. search_term is_word ci_eq term (narrative_text out))
             (case banned of None \<Rightarrow> [] | Some ts \<Rightarrow> ts)))"
  by (simp add: lint_output_def Let_def fold_flag)


lemma set_map_filter: "set (map m (filter V xs)) = m ` {x \<in> set xs. V x}"
  by auto

lemma finite_citation_set: "finite (citation_set out)"
  by (cases "citationsUsed out") (simp_all add: citation_set_def)

lemma lint_output_sets:
  assumes it: "iteration_order iter"
  shows "fst (lint_output is_word ci_eq iter out allowed provided banned) \<longleftrightarrow>
       unallowed_tokens is_word out allowed = {} \<and> citation_set out \<noteq> {} \<and>
       bad_citation_ids out provided = {} \<and> banned_present is_word ci_eq out banned = {}"
    and "set (snd (lint_output is_word ci_eq iter out allowed provided banned)) =
       unallowed_msg ` unallowed_tokens is_word out allowed \<union>
       (if citation_set out = {} then {no_citations_msg} else {}) \<union>
       bad_citation_msg ` bad_citation_ids out provided \<union>
       banned_msg ` banned_present is_word ci_eq out banned"
proof -
  have s6: "set (iter 6 (set (findall_capitalized is_word (narrative_text out))))
      = set (findall_capitalized is_word (narrative_text out))"
    using it by (simp add: iteration_order_def)
  have s7: "set (iter 7 (citation_set out)) = citation_set out"
    using it finite_citation_set by (simp add: iteration_order_def)
  show "fst (lint_output is_word ci_eq iter out allowed provided banned) \<longleftrightarrow>
       unallowed_tokens is_word out allowed = {} \<and> citation_set out \<noteq> {} \<and>
       bad_citation_ids out provided = {} \<and> banned_present is_word ci_eq out banned = {}"
    unfolding lint_output_eq fst_conv s6 s7
    by (auto simp: unallowed_tokens_def bad_citation_ids_def banned_present_def)
  show "set (snd (lint_output is_word ci_eq iter out allowed provided banned)) =
       unallowed_msg ` unallowed_tokens is_word out allowed \<union>
       (if citation_set out = {} then {no_citations_msg} else {}) \<union>
       bad_citation_msg ` bad_citation_ids out provided \<union>
       banned_msg ` banned_present is_word ci_eq out banned"
    unfolding lint_output_eq snd_conv s6 s7 set_append set_map_filter
      unallowed_tokens_def bad_citation_ids_def banned_present_def
    by (cases "citation_set out = {}") (simp_all add: Un_assoc)
qed

lemma lint_ok_iff_no_issue:
  "fst (lint_output is_word ci_eq iter out allowed provided banned) \<longleftrightarrow>
     snd (lint_output is_word ci_eq iter out allowed provided banned) = []"
  unfolding lint_output_eq fst_conv snd_conv
  by (auto simp: filter_empty_conv)

text \<open>
  C4. The verdict is valid exactly when none of the four checks finds a violation: no
  capitalized token of the narrative outside the allowed set and the two exemptions, a
  citation list that is not empty, no citation id outside the provided ids, and no banned
  term found as a whole word without regard to case. The issue list holds one message for
  every violation and no other, and it is empty exactly when the verdict is valid. This
  holds for every class of word characters and every matching of characters without
  regard to case, so also for those of the Unicode character database, which the patterns
  of the lint use.
\<close>

theorem lint_valid_iff_no_violation:
  assumes it: "iteration_order iter"
  shows "(fst (lint_output is_word ci_eq iter out allowed provided banned) \<longleftrightarrow>
       unallowed_tokens is_word out allowed = {} \<and> citation_set out \<noteq> {} \<and>
       bad_citation_ids out provided = {} \<and> banned_present is_word ci_eq out banned = {}) \<and>
    (fst (lint_output is_word ci_eq iter out allowed provided banned) \<longleftrightarrow>
       snd (lint_output is_word ci_eq iter out allowed provided banned) = []) \<and>
    set (snd (lint_output is_word ci_eq iter out allowed provided banned)) =
       unallowed_msg ` unallowed_tokens is_word out allowed \<union>
       (if citation_set out = {} then {no_citations_msg} else {}) \<union>
       bad_citation_msg ` bad_citation_ids out provided \<union>
       banned_msg ` banned_present is_word ci_eq out banned"
  using lint_output_sets[OF it, of is_word ci_eq out allowed provided banned]
    lint_ok_iff_no_issue[of is_word ci_eq iter out allowed provided banned]
  by (intro conjI)

lemma lint_violations:
  "lint_output word_ascii ci_eq_ascii ascending out_violations {''PadInit''} [''p1''] (Some [''coffee''])
     = (False, [''unallowed token: Coffee'', ''unallowed token: Foo'', ''bad citation id: xyz'',
                ''unrepresentable term present: coffee''])"
  by code_simp


lemma lint_clean:
  "lint_output word_ascii ci_eq_ascii ascending out_clean {''PadInit''} [''p1'', ''p2''] (Some [''coffee'']) = (True, [])"
  by code_simp

theorem lint_valid_iff_no_violation_witness:
  "iteration_order ascending \<and>
   lint_output word_ascii ci_eq_ascii ascending out_violations {''PadInit''} [''p1''] (Some [''coffee''])
     = (False, [''unallowed token: Coffee'', ''unallowed token: Foo'', ''bad citation id: xyz'',
                ''unrepresentable term present: coffee'']) \<and>
   \<not> (unallowed_tokens word_ascii out_violations {''PadInit''} = {} \<and> citation_set out_violations \<noteq> {} \<and>
      bad_citation_ids out_violations [''p1''] = {} \<and>
      banned_present word_ascii ci_eq_ascii out_violations (Some [''coffee'']) = {}) \<and>
   lint_output word_ascii ci_eq_ascii ascending out_clean {''PadInit''} [''p1'', ''p2''] (Some [''coffee'']) = (True, []) \<and>
   unallowed_tokens word_ascii out_clean {''PadInit''} = {} \<and> citation_set out_clean \<noteq> {} \<and>
   bad_citation_ids out_clean [''p1'', ''p2''] = {} \<and>
   banned_present word_ascii ci_eq_ascii out_clean (Some [''coffee'']) = {}"
proof -
  note it = iteration_order_ascending
  from lint_valid_iff_no_violation[OF it, of word_ascii ci_eq_ascii out_violations "{''PadInit''}"
      "[''p1'']" "Some [''coffee'']"]
  have bad: "\<not> (unallowed_tokens word_ascii out_violations {''PadInit''} = {} \<and>
      citation_set out_violations \<noteq> {} \<and>
      bad_citation_ids out_violations [''p1''] = {} \<and>
      banned_present word_ascii ci_eq_ascii out_violations (Some [''coffee'']) = {})"
    unfolding lint_violations by simp
  from lint_valid_iff_no_violation[OF it, of word_ascii ci_eq_ascii out_clean "{''PadInit''}"
      "[''p1'', ''p2'']" "Some [''coffee'']"]
  have good: "unallowed_tokens word_ascii out_clean {''PadInit''} = {} \<and> citation_set out_clean \<noteq> {} \<and>
      bad_citation_ids out_clean [''p1'', ''p2''] = {} \<and>
      banned_present word_ascii ci_eq_ascii out_clean (Some [''coffee'']) = {}"
    unfolding lint_clean by simp
  from it lint_violations bad lint_clean good show ?thesis by (intro conjI) simp_all
qed


section \<open>Properties of the repair step\<close>















lemma lint_guardrail_xyz:
  "lint_output word_ascii ci_eq_ascii ascending (guardrail quotes_p1_p2 out_xyz) {''PadInit''} (map qid quotes_p1_p2) None
     = (True, [])"
  by code_simp






section \<open>Properties of the parse of the answer\<close>

lemma json_object_span_None:
  "json_object_span raw = None \<longleftrightarrow> CHR ''}'' \<notin> set (dropWhile (\<lambda>c. c \<noteq> CHR ''{'') raw)"
  by (auto simp: json_object_span_def Let_def dropWhile_eq_Nil_conv)

lemma json_object_span_Some:
  assumes "json_object_span raw = Some m"
  shows "\<exists>pre post. raw = pre @ m @ post \<and> CHR ''{'' \<notin> set pre \<and> CHR ''}'' \<notin> set post"
    and "m \<noteq> []" and "hd m = CHR ''{''" and "last m = CHR ''}''"
proof -
  let ?t = "dropWhile (\<lambda>c. c \<noteq> CHR ''{'') raw"
  let ?d = "dropWhile (\<lambda>c. c \<noteq> CHR ''}'') (rev ?t)"
  let ?post = "rev (takeWhile (\<lambda>c. c \<noteq> CHR ''}'') (rev ?t))"
  let ?pre = "takeWhile (\<lambda>c. c \<noteq> CHR ''{'') raw"
  from assms have m: "m = rev ?d" and ne: "?d \<noteq> []"
    by (simp_all add: json_object_span_def Let_def split: if_splits)
  from ne show mne: "m \<noteq> []" by (simp add: m)
  have "rev (rev ?t) = rev (takeWhile (\<lambda>c. c \<noteq> CHR ''}'') (rev ?t) @ ?d)"
    by (simp only: takeWhile_dropWhile_id)
  then have "?t = rev ?d @ ?post" by (simp only: rev_rev_ident rev_append)
  then have t: "?t = m @ ?post" unfolding m .
  have raw: "raw = ?pre @ m @ ?post"
    using takeWhile_dropWhile_id[of "\<lambda>c. c \<noteq> CHR ''{''" raw] t by simp
  have pre: "CHR ''{'' \<notin> set ?pre" by (auto dest: set_takeWhileD)
  have post: "CHR ''}'' \<notin> set ?post" by (auto dest: set_takeWhileD)
  from raw pre post
  show "\<exists>pre post. raw = pre @ m @ post \<and> CHR ''{'' \<notin> set pre \<and> CHR ''}'' \<notin> set post"
    by blast
  have "\<not> (hd ?d \<noteq> CHR ''}'')" using ne by (rule hd_dropWhile)
  then show "last m = CHR ''}''" using ne by (simp add: m last_rev)
  have tne: "?t \<noteq> []" by (subst t) (simp add: mne)
  have "\<not> (hd ?t \<noteq> CHR ''{'')" using tne by (rule hd_dropWhile)
  moreover have "hd ?t = hd m" by (subst t) (simp add: mne)
  ultimately show "hd m = CHR ''{''" by simp
qed

text \<open>The span is the only part of the text with these properties.\<close>

lemma json_object_span_unique:
  assumes raw: "raw = pre @ m @ post" and pre: "CHR ''{'' \<notin> set pre"
    and post: "CHR ''}'' \<notin> set post" and ne: "m \<noteq> []"
    and h: "hd m = CHR ''{''" and l: "last m = CHR ''}''"
  shows "json_object_span raw = Some m"
proof -
  from ne h obtain m' where m': "m = CHR ''{'' # m'" by (cases m) auto
  from ne l obtain m'' where m'': "m = m'' @ [CHR ''}'']" by (metis append_butlast_last_id)
  have pre': "\<And>x. x \<in> set pre \<Longrightarrow> x \<noteq> CHR ''{''" using pre by auto
  have post': "\<And>x. x \<in> set (rev post) \<Longrightarrow> x \<noteq> CHR ''}''" using post by auto
  have t: "dropWhile (\<lambda>c. c \<noteq> CHR ''{'') raw = m @ post"
    unfolding raw by (simp add: dropWhile_append2[OF pre'] m')
  have "dropWhile (\<lambda>c. c \<noteq> CHR ''}'') (rev post @ CHR ''}'' # rev m'')
      = dropWhile (\<lambda>c. c \<noteq> CHR ''}'') (CHR ''}'' # rev m'')"
    by (rule dropWhile_append2) (rule post')
  then have d: "dropWhile (\<lambda>c. c \<noteq> CHR ''}'') (rev (m @ post)) = CHR ''}'' # rev m''"
    by (simp add: m'')
  show ?thesis
    unfolding json_object_span_def Let_def t d by (simp add: m'')
qed

lemma parse_model_json_failed:
  assumes "loads raw = Inl (JSONDecodeError e)"
  shows "parse_model_json loads raw =
     (case json_object_span raw of
        None \<Rightarrow> Inr (empty_out ''no-json-object-found'' raw)
      | Some m \<Rightarrow>
          (case loads m of Inr out \<Rightarrow> Inr out | Inl e' \<Rightarrow> Inr (empty_out (str_of e') raw)))"
  using assms by (simp add: parse_model_json_def)

lemma parse_model_json_returns:
  assumes "loads raw = Inl (JSONDecodeError e)"
  shows "\<exists>out. parse_model_json loads raw = Inr out"
  unfolding parse_model_json_failed[where loads = loads and raw = raw, OF assms]
  by (cases "json_object_span raw"; cases "loads (the (json_object_span raw))") simp_all

text \<open>
  An exception of the first \<^verbatim>\<open>json.loads\<close> that is not a \<^verbatim>\<open>JSONDecodeError\<close> is not
  caught: it leaves the block and \<^verbatim>\<open>ask_lmstudio\<close>.
\<close>

lemma parse_model_json_other_exception:
  assumes "loads raw = Inl (OtherException msg)"
  shows "parse_model_json loads raw = Inl (OtherException msg)"
    and "llm allowed quotes event_brief = Some raw \<Longrightarrow>
      ask_lmstudio llm loads allowed quotes event_brief = Inl (Raised (OtherException msg))"
  using assms by (simp_all add: parse_model_json_def ask_lmstudio_def)

text \<open>
  C8. For a response on which \<^verbatim>\<open>json.loads\<close> raises a \<^verbatim>\<open>JSONDecodeError\<close>, the boundary of
  \<^verbatim>\<open>run_narrative.py\<close> takes the part of the response from its first opening brace to the
  last closing brace behind it, and this part is what it parses. There is no such part
  exactly when no closing brace follows the first opening brace; then the result is the
  empty result with the marker \<^verbatim>\<open>no-json-object-found\<close>. When the part parses, its value is
  the result; when \<^verbatim>\<open>json.loads\<close> raises an exception on it, of whatever class, the result
  is the empty result with the text of the exception as its marker. The empty result has an
  empty narrative, an empty citation list and an empty token list, and carries the marker
  and the response. In each of these cases the parse gives a result and raises nothing.
\<close>

theorem parse_model_json_recovers_span:
  assumes fail: "loads raw = Inl (JSONDecodeError e)"
  shows "(json_object_span raw = None \<longleftrightarrow>
        CHR ''}'' \<notin> set (dropWhile (\<lambda>c. c \<noteq> CHR ''{'') raw)) \<and>
    (json_object_span raw = None \<longrightarrow>
        parse_model_json loads raw = Inr (empty_out ''no-json-object-found'' raw)) \<and>
    (\<forall>m. json_object_span raw = Some m \<longleftrightarrow>
        (\<exists>pre post. raw = pre @ m @ post \<and> CHR ''{'' \<notin> set pre \<and> CHR ''}'' \<notin> set post) \<and>
        m \<noteq> [] \<and> hd m = CHR ''{'' \<and> last m = CHR ''}'') \<and>
    (\<forall>m out. json_object_span raw = Some m \<and> loads m = Inr out \<longrightarrow>
        parse_model_json loads raw = Inr out) \<and>
    (\<forall>m e'. json_object_span raw = Some m \<and> loads m = Inl e' \<longrightarrow>
        parse_model_json loads raw = Inr (empty_out (str_of e') raw)) \<and>
    (\<forall>err. narrative (empty_out err raw) = Some [] \<and> citationsUsed (empty_out err raw) = Some [] \<and>
        tokensUsed (empty_out err raw) = Some [] \<and> parse_error (empty_out err raw) = Some err \<and>
        raw_text (empty_out err raw) = Some raw) \<and>
    (\<exists>out. parse_model_json loads raw = Inr out)"
proof -
  note pf = parse_model_json_failed[where loads = loads and raw = raw, OF fail]
  have c1: "json_object_span raw = None \<longleftrightarrow>
        CHR ''}'' \<notin> set (dropWhile (\<lambda>c. c \<noteq> CHR ''{'') raw)"
    by (rule json_object_span_None)
  have c2: "json_object_span raw = None \<longrightarrow>
        parse_model_json loads raw = Inr (empty_out ''no-json-object-found'' raw)"
    by (simp add: pf)
  have c3: "\<forall>m. json_object_span raw = Some m \<longleftrightarrow>
        (\<exists>pre post. raw = pre @ m @ post \<and> CHR ''{'' \<notin> set pre \<and> CHR ''}'' \<notin> set post) \<and>
        m \<noteq> [] \<and> hd m = CHR ''{'' \<and> last m = CHR ''}''"
  proof (intro allI iffI)
    fix m assume "json_object_span raw = Some m"
    from json_object_span_Some[OF this]
    show "(\<exists>pre post. raw = pre @ m @ post \<and> CHR ''{'' \<notin> set pre \<and> CHR ''}'' \<notin> set post) \<and>
        m \<noteq> [] \<and> hd m = CHR ''{'' \<and> last m = CHR ''}''"
      by (intro conjI)
  next
    fix m assume a: "(\<exists>pre post. raw = pre @ m @ post \<and> CHR ''{'' \<notin> set pre \<and> CHR ''}'' \<notin> set post) \<and>
        m \<noteq> [] \<and> hd m = CHR ''{'' \<and> last m = CHR ''}''"
    then obtain pre post where "raw = pre @ m @ post" "CHR ''{'' \<notin> set pre" "CHR ''}'' \<notin> set post"
      by blast
    moreover from a have "m \<noteq> []" "hd m = CHR ''{''" "last m = CHR ''}''" by simp_all
    ultimately show "json_object_span raw = Some m" by (rule json_object_span_unique)
  qed
  have c4: "\<forall>m out. json_object_span raw = Some m \<and> loads m = Inr out \<longrightarrow>
        parse_model_json loads raw = Inr out"
    by (simp add: pf)
  have c5: "\<forall>m e'. json_object_span raw = Some m \<and> loads m = Inl e' \<longrightarrow>
        parse_model_json loads raw = Inr (empty_out (str_of e') raw)"
    by (simp add: pf)
  have c6: "\<forall>err. narrative (empty_out err raw) = Some [] \<and> citationsUsed (empty_out err raw) = Some [] \<and>
        tokensUsed (empty_out err raw) = Some [] \<and> parse_error (empty_out err raw) = Some err \<and>
        raw_text (empty_out err raw) = Some raw"
    by (simp add: empty_out_def)
  have c7: "\<exists>out. parse_model_json loads raw = Inr out"
    by (rule parse_model_json_returns[where loads = loads and raw = raw, OF fail])
  from c1 c2 c3 c4 c5 c6 c7 show ?thesis by (intro conjI)
qed

lemma loads_example_wrapped:
  "loads_example answer_wrapped = Inl (JSONDecodeError ''Expecting value: line 1 column 1 (char 0)'')"
  by code_simp

lemma loads_example_object: "loads_example answer_object = Inr answer_parsed"
  by (simp add: loads_example_def)

lemma loads_example_span:
  "loads_example (answer_object @ '' (ids in {braces}'') = Inl (JSONDecodeError ''Extra data: line 1 column 91 (char 90)'')"
  by (simp add: loads_example_def)

lemma span_wrapped:
  "json_object_span answer_wrapped = Some (answer_object @ '' (ids in {braces}'')"
  by code_simp

lemma loads_example_prefixed:
  "loads_example (''Answer: '' @ answer_object) = Inl (JSONDecodeError ''Expecting value: line 1 column 1 (char 0)'')"
  by code_simp

lemma span_prefixed: "json_object_span (''Answer: '' @ answer_object) = Some answer_object"
  by code_simp

lemma loads_example_plain:
  "loads_example ''PadInit starts the driver.'' = Inl (JSONDecodeError ''Expecting value: line 1 column 1 (char 0)'')"
  by code_simp

lemma span_plain: "json_object_span ''PadInit starts the driver.'' = None"
  by code_simp

lemma answer_parsed_not_empty: "empty_out err raw \<noteq> answer_parsed"
  by (simp add: empty_out_def answer_parsed_def)

theorem parse_model_json_recovers_span_witness:
  "loads_example answer_wrapped = Inl (JSONDecodeError ''Expecting value: line 1 column 1 (char 0)'') \<and>
   json_object_span answer_wrapped = Some (answer_object @ '' (ids in {braces}'') \<and>
   loads_example (answer_object @ '' (ids in {braces}'') = Inl (JSONDecodeError ''Extra data: line 1 column 91 (char 90)'') \<and>
   parse_model_json loads_example answer_wrapped
     = Inr (empty_out ''Extra data: line 1 column 91 (char 90)'' answer_wrapped) \<and>
   loads_example (''Answer: '' @ answer_object) = Inl (JSONDecodeError ''Expecting value: line 1 column 1 (char 0)'') \<and>
   json_object_span (''Answer: '' @ answer_object) = Some answer_object \<and>
   loads_example answer_object = Inr answer_parsed \<and>
   parse_model_json loads_example (''Answer: '' @ answer_object) = Inr answer_parsed \<and>
   loads_example ''PadInit starts the driver.'' = Inl (JSONDecodeError ''Expecting value: line 1 column 1 (char 0)'') \<and>
   json_object_span ''PadInit starts the driver.'' = None \<and>
   parse_model_json loads_example ''PadInit starts the driver.''
     = Inr (empty_out ''no-json-object-found'' ''PadInit starts the driver.'')"
proof -
  note a = parse_model_json_recovers_span[where loads = loads_example and raw = answer_wrapped,
      OF loads_example_wrapped]
  note b = parse_model_json_recovers_span[where loads = loads_example and
      raw = "''Answer: '' @ answer_object", OF loads_example_prefixed]
  note c = parse_model_json_recovers_span[where loads = loads_example and
      raw = "''PadInit starts the driver.''", OF loads_example_plain]
  from a have "\<forall>m e'. json_object_span answer_wrapped = Some m \<and> loads_example m = Inl e' \<longrightarrow>
        parse_model_json loads_example answer_wrapped = Inr (empty_out (str_of e') answer_wrapped)"
    by (elim conjE)
  then have "json_object_span answer_wrapped = Some (answer_object @ '' (ids in {braces}'') \<and>
      loads_example (answer_object @ '' (ids in {braces}'')
        = Inl (JSONDecodeError ''Extra data: line 1 column 91 (char 90)'') \<longrightarrow>
      parse_model_json loads_example answer_wrapped
        = Inr (empty_out (str_of (JSONDecodeError ''Extra data: line 1 column 91 (char 90)''))
                 answer_wrapped)"
    by (elim allE)
  from this conjI[OF span_wrapped loads_example_span]
  have "parse_model_json loads_example answer_wrapped
     = Inr (empty_out (str_of (JSONDecodeError ''Extra data: line 1 column 91 (char 90)''))
              answer_wrapped)"
    by (rule mp)
  then have ra: "parse_model_json loads_example answer_wrapped
     = Inr (empty_out ''Extra data: line 1 column 91 (char 90)'' answer_wrapped)"
    by (simp add: str_of_def)
  from b have "\<forall>m out. json_object_span (''Answer: '' @ answer_object) = Some m \<and> loads_example m = Inr out \<longrightarrow>
        parse_model_json loads_example (''Answer: '' @ answer_object) = Inr out"
    by (elim conjE)
  then have "json_object_span (''Answer: '' @ answer_object) = Some answer_object \<and>
      loads_example answer_object = Inr answer_parsed \<longrightarrow>
      parse_model_json loads_example (''Answer: '' @ answer_object) = Inr answer_parsed"
    by (elim allE)
  from this conjI[OF span_prefixed loads_example_object]
  have rb: "parse_model_json loads_example (''Answer: '' @ answer_object) = Inr answer_parsed"
    by (rule mp)
  from c have "json_object_span ''PadInit starts the driver.'' = None \<longrightarrow>
        parse_model_json loads_example ''PadInit starts the driver.''
          = Inr (empty_out ''no-json-object-found'' ''PadInit starts the driver.'')"
    by (elim conjE)
  from this span_plain
  have rc: "parse_model_json loads_example ''PadInit starts the driver.''
     = Inr (empty_out ''no-json-object-found'' ''PadInit starts the driver.'')"
    by (rule mp)
  from loads_example_wrapped span_wrapped loads_example_span ra
    loads_example_prefixed span_prefixed loads_example_object rb
    loads_example_plain span_plain rc
  show ?thesis by (intro conjI)
qed

text \<open>
  The wrapped answer holds a well-formed object, the first thing in it that starts with a
  brace, and \<^verbatim>\<open>json.loads\<close> parses that object. The boundary hands the longer part up to
  the last closing brace to \<^verbatim>\<open>json.loads\<close> and returns the empty result.
\<close>

theorem parse_model_json_greedy_counterexample:
  "answer_wrapped = ''Answer: '' @ answer_object @ '' (ids in {braces})'' \<and>
   loads_example answer_wrapped = Inl (JSONDecodeError ''Expecting value: line 1 column 1 (char 0)'') \<and>
   loads_example answer_object = Inr answer_parsed \<and>
   json_object_span answer_wrapped \<noteq> Some answer_object \<and>
   parse_model_json loads_example answer_wrapped
     = Inr (empty_out ''Extra data: line 1 column 91 (char 90)'' answer_wrapped) \<and>
   parse_model_json loads_example answer_wrapped \<noteq> Inr answer_parsed"
proof -
  have r: "parse_model_json loads_example answer_wrapped
     = Inr (empty_out ''Extra data: line 1 column 91 (char 90)'' answer_wrapped)"
    by (simp add: parse_model_json_def loads_example_wrapped span_wrapped loads_example_span
        str_of_def)
  have s: "json_object_span answer_wrapped \<noteq> Some answer_object"
    unfolding span_wrapped by simp
  have n: "parse_model_json loads_example answer_wrapped \<noteq> Inr answer_parsed"
    unfolding r by (simp add: answer_parsed_not_empty)
  from answer_wrapped_def loads_example_wrapped loads_example_object s r n
  show ?thesis by (intro conjI)
qed

text \<open>
  The copy of the boundary in \<^verbatim>\<open>interpret_llm.py\<close> does not guard the second parse: on the
  same answer the error leaves \<^verbatim>\<open>ask_lmstudio\<close>.
\<close>

lemma parse_model_json_llm_raises:
  "parse_model_json_llm loads_example answer_wrapped = Inl (JSONDecodeError ''Extra data: line 1 column 91 (char 90)'')"
  by (simp add: parse_model_json_llm_def loads_example_wrapped span_wrapped loads_example_span)


end
